theory Spec2Isabelle
  imports Main "HOL-Library.Word"
begin

section \<open>Strings, bytes and errors\<close>

text \<open>
  A Python \<open>str\<close> is a sequence of Unicode code points and \<open>len\<close> counts code points,
  so a string is modelled as a list of code points (natural numbers); \<open>bytes\<close> is a list
  of 8-bit words. String literals of the source are written with \<open>lit\<close>, which maps
  every character of an Isabelle string to its code point.
\<close>

type_synonym str = "nat list"
type_synonym bytes = "8 word list"

definition lit :: "string \<Rightarrow> str" where
  "lit s = map of_char s"

text \<open>
  \<open>str.strip()\<close> and the regular expression class \<open>\s\<close> use the same whitespace test
  (\<open>Py_UNICODE_ISSPACE\<close>); \<open>\d\<close> matches the code points of Unicode category Nd,
  which are 66 runs of ten consecutive code points (Unicode 14, the table of CPython 3.11).
\<close>

definition isspace :: "nat \<Rightarrow> bool" where
  "isspace c = (c \<in> set [9, 10, 11, 12, 13, 28, 29, 30, 31, 32, 133, 160, 5760,
     8192, 8193, 8194, 8195, 8196, 8197, 8198, 8199, 8200, 8201, 8202,
     8232, 8233, 8239, 8287, 12288])"

definition decimal_zeros :: "nat list" where
  "decimal_zeros = [48, 1632, 1776, 1984, 2406, 2534, 2662, 2790, 2918, 3046, 3174,
     3302, 3430, 3558, 3664, 3792, 3872, 4160, 4240, 6112, 6160, 6470, 6608, 6784,
     6800, 6992, 7088, 7232, 7248, 42528, 43216, 43264, 43472, 43504, 43600, 44016,
     65296, 66720, 68912, 69734, 69872, 69942, 70096, 70384, 70736, 70864, 71248,
     71360, 71472, 71904, 72016, 72784, 73040, 73120, 92768, 92864, 93008, 120782,
     120792, 120802, 120812, 120822, 123200, 123632, 125264, 130032]"

definition isdecimal :: "nat \<Rightarrow> bool" where
  "isdecimal c = list_ex (\<lambda>z. z \<le> c \<and> c < z + 10) decimal_zeros"

definition strip :: "str \<Rightarrow> str" where
  "strip s = rev (dropWhile isspace (rev (dropWhile isspace s)))"

section \<open>Regular expressions\<close>

text \<open>
  The patterns of the source use literals, character classes, greedy \<open>*\<close> and \<open>+\<close> on a
  class, a greedy optional non-capturing group and capturing groups. \<open>rmatch r s\<close> lists
  every way \<open>r\<close> matches a prefix of \<open>s\<close>, as the captured groups and the unread rest of
  \<open>s\<close>, in the order in which a backtracking matcher tries them (longest repetition
  first); the match that Python reports is the first of the list.
\<close>

datatype regex =
    Lit str
  | Cls "nat \<Rightarrow> bool"
  | Star "nat \<Rightarrow> bool"
  | Plus "nat \<Rightarrow> bool"
  | Opt regex
  | Seq regex regex
  | Grp regex

fun strip_prefix :: "str \<Rightarrow> str \<Rightarrow> str option" where
  "strip_prefix [] s = Some s"
| "strip_prefix (c # l) [] = None"
| "strip_prefix (c # l) (d # s) = (if c = d then strip_prefix l s else None)"

fun rmatch :: "regex \<Rightarrow> str \<Rightarrow> (str list \<times> str) list" where
  "rmatch (Lit l) s = (case strip_prefix l s of None \<Rightarrow> [] | Some r \<Rightarrow> [([], r)])"
| "rmatch (Cls p) s = (case s of [] \<Rightarrow> [] | c # cs \<Rightarrow> if p c then [([], cs)] else [])"
| "rmatch (Star p) s =
     map (\<lambda>k. ([], drop k s)) (rev [0 ..< Suc (length (takeWhile p s))])"
| "rmatch (Plus p) s =
     map (\<lambda>k. ([], drop k s)) (rev [1 ..< Suc (length (takeWhile p s))])"
| "rmatch (Opt r) s = rmatch r s @ [([], s)]"
| "rmatch (Seq a b) s =
     concat (map (\<lambda>(g1, r1). map (\<lambda>(g2, r2). (g1 @ g2, r2)) (rmatch b r1)) (rmatch a s))"
| "rmatch (Grp r) s =
     map (\<lambda>(g, r'). (take (length s - length r') s # g, r')) (rmatch r s)"

text \<open>
  \<open>pattern.match(s)\<close>: the match at the start of \<open>s\<close>, as the list of its groups
  (group 0, the matched text, first) and the rest of \<open>s\<close>; \<open>None\<close> when there is none.
\<close>

definition re_match :: "regex \<Rightarrow> str \<Rightarrow> (str list \<times> str) option" where
  "re_match r s =
     (case rmatch r s of [] \<Rightarrow> None
      | (g, rest) # _ \<Rightarrow> Some (take (length s - length rest) s # g, rest))"

definition group :: "str list \<Rightarrow> nat \<Rightarrow> str" where
  "group m i = m ! i"

text \<open>
  \<open>pattern.sub(repl, s)\<close> with a function \<open>repl\<close>: the string is scanned from the left;
  where the pattern matches, the replacement of the match is written and the scan goes on
  behind the match; elsewhere one character is copied. The replacement function of
  \<open>substitute_placeholders\<close> appends to a list while it runs, so it takes and returns a
  state. A match of no characters is replaced and the scan moves one character on.
\<close>

fun emit :: "str \<Rightarrow> str \<times> 's \<Rightarrow> str \<times> 's" where
  "emit pre (out, st) = (pre @ out, st)"

function re_sub :: "regex \<Rightarrow> (str list \<Rightarrow> 's \<Rightarrow> str \<times> 's) \<Rightarrow> 's \<Rightarrow> str \<Rightarrow> str \<times> 's" where
  "re_sub r f st s =
     (case re_match r s of
        None \<Rightarrow> (case s of [] \<Rightarrow> ([], st) | c # cs \<Rightarrow> emit [c] (re_sub r f st cs))
      | Some (m, rest) \<Rightarrow>
          (case f m st of (rep, st1) \<Rightarrow>
             if length rest < length s then emit rep (re_sub r f st1 rest)
             else (case s of [] \<Rightarrow> (rep, st1)
                   | c # cs \<Rightarrow> emit (rep @ [c]) (re_sub r f st1 cs))))"
  by pat_completeness auto
termination
  by (relation "measure (\<lambda>(r, f, st, s). length s)") auto

text \<open>\<open>needle in haystack\<close> on strings: \<open>needle\<close> occurs as a contiguous part.\<close>

fun str_in :: "str \<Rightarrow> str \<Rightarrow> bool" where
  "str_in p [] = (p = [])"
| "str_in p (c # s) = (strip_prefix p (c # s) \<noteq> None \<or> str_in p s)"

section \<open>The patterns of the source\<close>

definition name_start :: "nat \<Rightarrow> bool" where
  \<open>name_start c = ((of_char CHR ''A'' \<le> c \<and> c \<le> of_char CHR ''Z'')
     \<or> (of_char CHR ''a'' \<le> c \<and> c \<le> of_char CHR ''z'') \<or> c = of_char CHR ''_'')\<close>

definition name_char :: "nat \<Rightarrow> bool" where
  \<open>name_char c = ((of_char CHR ''A'' \<le> c \<and> c \<le> of_char CHR ''Z'')
     \<or> (of_char CHR ''a'' \<le> c \<and> c \<le> of_char CHR ''z'')
     \<or> (of_char CHR ''0'' \<le> c \<and> c \<le> of_char CHR ''9'') \<or> c = of_char CHR ''_'')\<close>

definition not_lt :: "nat \<Rightarrow> bool" where
  \<open>not_lt c = (c \<noteq> of_char CHR ''<'')\<close>

definition ENV_PLACEHOLDER_PATTERN :: regex where
  \<open>ENV_PLACEHOLDER_PATTERN =
     Seq (Lit (lit ''${'')) (Seq (Grp (Seq (Cls name_start) (Star name_char))) (Lit (lit ''}'')))\<close>

definition KEY_LENGTH :: nat where "KEY_LENGTH = 32"
definition NONCE_LENGTH :: nat where "NONCE_LENGTH = 12"
definition ENCRYPTION_VERSION :: str where \<open>ENCRYPTION_VERSION = lit ''1''\<close>

definition VERSIONED_TAG_PATTERN :: regex where
  \<open>VERSIONED_TAG_PATTERN =
     Seq (Lit (lit ''<encrypted v="'')) (Seq (Grp (Plus isdecimal)) (Seq (Lit (lit ''">''))
       (Seq (Grp (Star not_lt)) (Lit (lit ''</encrypted>'')))))\<close>

definition ANY_ENCRYPTED_TAG_PATTERN :: regex where
  \<open>ANY_ENCRYPTED_TAG_PATTERN =
     Seq (Lit (lit ''<encrypted''))
       (Seq (Opt (Seq (Plus isspace) (Seq (Lit (lit ''v="'')) (Seq (Plus isdecimal) (Lit (lit ''"''))))))
         (Seq (Lit (lit ''>'')) (Seq (Grp (Star not_lt)) (Lit (lit ''</encrypted>'')))))\<close>

section \<open>Placeholder substitution\<close>

text \<open>
  The replacement function of \<open>substitute_placeholders\<close>; its state is the list
  \<open>unresolved\<close>, to which it appends.
\<close>

definition replacer_env :: "(str \<rightharpoonup> str) \<Rightarrow> str list \<Rightarrow> str list \<Rightarrow> str \<times> str list" where
  "replacer_env env m unresolved =
     (let var_name = group m 1 in
      case env var_name of
        Some v \<Rightarrow> (v, unresolved)
      | None \<Rightarrow> (group m 0, unresolved @ [var_name]))"

definition substitute_placeholders :: "str \<Rightarrow> (str \<rightharpoonup> str) \<Rightarrow> str \<times> str list" where
  "substitute_placeholders content env = re_sub ENV_PLACEHOLDER_PATTERN (replacer_env env) [] content"

section \<open>Encrypted tags\<close>

definition is_encrypted :: "str \<Rightarrow> bool" where
  \<open>is_encrypted v = (let trimmed = strip v in
     strip_prefix (lit ''<encrypted v="'') trimmed \<noteq> None
     \<and> strip_prefix (rev (lit ''</encrypted>'')) (rev trimmed) \<noteq> None)\<close>

definition has_encrypted_tags :: "str \<Rightarrow> bool" where
  \<open>has_encrypted_tags content = str_in (lit ''<encrypted v="'') content\<close>

text \<open>The template \<open>\1\<close> of \<open>strip_encrypted_tags\<close> replaces a match by its group 1.\<close>

definition strip_encrypted_tags :: "str \<Rightarrow> str" where
  "strip_encrypted_tags content =
     fst (re_sub ANY_ENCRYPTED_TAG_PATTERN (\<lambda>m st. (group m 1, st)) () content)"


text \<open>
  The tag grammar, as the docstring of \<open>decrypt_value\<close> and the encryption helper of the
  tests write it, and the unversioned form.
\<close>

definition versioned_tag :: "str \<Rightarrow> str \<Rightarrow> str" where
  \<open>versioned_tag v payload = lit ''<encrypted v="'' @ v @ lit ''">'' @ payload @ lit ''</encrypted>''\<close>

definition legacy_tag :: "str \<Rightarrow> str" where
  \<open>legacy_tag payload = lit ''<encrypted>'' @ payload @ lit ''</encrypted>''\<close>

text \<open>A placeholder and the names its pattern admits.\<close>

definition placeholder :: "str \<Rightarrow> str" where
  \<open>placeholder name = lit ''${'' @ name @ lit ''}''\<close>

definition valid_name :: "str \<Rightarrow> bool" where
  "valid_name name = (case name of [] \<Rightarrow> False | c # cs \<Rightarrow> name_start c \<and> list_all name_char cs)"

section \<open>Errors\<close>

text \<open>
  The exceptions the modelled functions raise. All of them are instances of
  \<open>Exception\<close>; \<open>CryptoUnavailable\<close> is the \<open>RuntimeError\<close> of \<open>decrypt_value\<close>, the
  others are \<open>ValueError\<close>s (or subclasses of it), but \<open>ImportError\<close>, which only the
  encryption helper of the tests raises. \<open>InvalidKey n\<close> is the error of \<open>parse_key\<close>,
  whose message reports \<open>n\<close> characters.
\<close>

datatype error =
    CryptoUnavailable
  | UnsupportedVersion str
  | DecodeFailed
  | ValueTooShort
  | KeySizeError
  | DecryptionFailed
  | UnicodeDecodeError
  | UnicodeEncodeError
  | NonAsciiError
  | Base64Error
  | FromHexError
  | InvalidKey nat
  | ImportError

section \<open>Library functions: base64, hexadecimal, UTF-8\<close>

text \<open>
  \<open>base64.b64decode(s)\<close> of the standard library, as the source calls it (no validation):
  a string with a non-ASCII character is refused; otherwise the characters are read from
  the left, characters outside the alphabet are skipped, every four alphabet characters
  give three bytes, and a padding character that completes a group ends the decoding.
  At the end of the input an incomplete group is an error. \<open>quad_pos\<close>, \<open>leftchar\<close> and
  \<open>pads\<close> are the variables of the decoder's loop; \<open>leftchar * 4 + v div 16\<close> is
  \<open>(leftchar << 2) | (v >> 4)\<close>, and so on.
\<close>

definition b64_value :: "nat \<Rightarrow> nat option" where
  \<open>b64_value c =
     (if of_char CHR ''A'' \<le> c \<and> c \<le> of_char CHR ''Z'' then Some (c - of_char CHR ''A'')
      else if of_char CHR ''a'' \<le> c \<and> c \<le> of_char CHR ''z'' then Some (c - of_char CHR ''a'' + 26)
      else if of_char CHR ''0'' \<le> c \<and> c \<le> of_char CHR ''9'' then Some (c - of_char CHR ''0'' + 52)
      else if c = of_char CHR ''+'' then Some 62
      else if c = of_char CHR ''/'' then Some 63
      else None)\<close>

fun a2b_base64 :: "nat \<Rightarrow> nat \<Rightarrow> nat \<Rightarrow> bytes \<Rightarrow> str \<Rightarrow> error + bytes" where
  "a2b_base64 quad_pos leftchar pads out [] =
     (if quad_pos \<noteq> 0 then Inl Base64Error else Inr out)"
| "a2b_base64 quad_pos leftchar pads out (ch # cs) =
     (if ch = of_char CHR ''='' then
        (if quad_pos \<ge> 2 \<and> quad_pos + (pads + 1) \<ge> 4 then Inr out
         else a2b_base64 quad_pos leftchar (if quad_pos \<ge> 2 then pads + 1 else pads) out cs)
      else
        (case b64_value ch of
           None \<Rightarrow> a2b_base64 quad_pos leftchar pads out cs
         | Some v \<Rightarrow>
             (if quad_pos = 0 then a2b_base64 1 v 0 out cs
              else if quad_pos = 1 then
                a2b_base64 2 (v mod 16) 0 (out @ [of_nat (leftchar * 4 + v div 16)]) cs
              else if quad_pos = 2 then
                a2b_base64 3 (v mod 4) 0 (out @ [of_nat (leftchar * 16 + v div 4)]) cs
              else a2b_base64 0 0 0 (out @ [of_nat (leftchar * 64 + v)]) cs)))"

definition b64decode :: "str \<Rightarrow> error + bytes" where
  "b64decode s = (if list_ex (\<lambda>c. c \<ge> 128) s then Inl NonAsciiError else a2b_base64 0 0 0 [] s)"

text \<open>\<open>base64.b64encode\<close> followed by \<open>.decode()\<close>: the standard alphabet with padding.\<close>

definition b64_char :: "nat \<Rightarrow> nat" where
  \<open>b64_char v =
     (if v < 26 then of_char CHR ''A'' + v
      else if v < 52 then of_char CHR ''a'' + (v - 26)
      else if v < 62 then of_char CHR ''0'' + (v - 52)
      else if v = 62 then of_char CHR ''+''
      else of_char CHR ''/'')\<close>

fun b64encode :: "bytes \<Rightarrow> str" where
  "b64encode [] = []"
| "b64encode [a] =
     [b64_char (unat a div 4), b64_char (unat a mod 4 * 16), of_char CHR ''='', of_char CHR ''='']"
| "b64encode [a, b] =
     [b64_char (unat a div 4), b64_char (unat a mod 4 * 16 + unat b div 16),
      b64_char (unat b mod 16 * 4), of_char CHR ''='']"
| "b64encode (a # b # c # bs) =
     [b64_char (unat a div 4), b64_char (unat a mod 4 * 16 + unat b div 16),
      b64_char (unat b mod 16 * 4 + unat c div 64), b64_char (unat c mod 64)] @ b64encode bs"

text \<open>
  \<open>bytes.fromhex\<close>: ASCII whitespace before a byte is skipped; a byte is two hexadecimal
  digits; anything else is a \<open>ValueError\<close>.
\<close>

definition hex_value :: "nat \<Rightarrow> nat option" where
  \<open>hex_value c =
     (if of_char CHR ''0'' \<le> c \<and> c \<le> of_char CHR ''9'' then Some (c - of_char CHR ''0'')
      else if of_char CHR ''a'' \<le> c \<and> c \<le> of_char CHR ''f'' then Some (c - of_char CHR ''a'' + 10)
      else if of_char CHR ''A'' \<le> c \<and> c \<le> of_char CHR ''F'' then Some (c - of_char CHR ''A'' + 10)
      else None)\<close>

definition ascii_space :: "nat \<Rightarrow> bool" where
  "ascii_space c = (c \<in> set [9, 10, 11, 12, 13, 32])"

fun fromhex :: "str \<Rightarrow> error + bytes" where
  "fromhex [] = Inr []"
| "fromhex [c] = (if ascii_space c then Inr [] else Inl FromHexError)"
| "fromhex (c # d # cs) =
     (if ascii_space c then fromhex (d # cs)
      else case (hex_value c, hex_value d) of
             (Some hi, Some lo) \<Rightarrow>
               (case fromhex cs of Inl e \<Rightarrow> Inl e | Inr bs \<Rightarrow> Inr (of_nat (hi * 16 + lo) # bs))
           | _ \<Rightarrow> Inl FromHexError)"

text \<open>
  \<open>bytes.decode("utf-8")\<close> (strict): the shortest form only, no surrogates, nothing
  above U+10FFFF; \<open>None\<close> is \<open>UnicodeDecodeError\<close>. \<open>str.encode()\<close> refuses surrogates.
\<close>

definition cont :: "8 word \<Rightarrow> bool" where
  "cont b = (128 \<le> unat b \<and> unat b \<le> 191)"

fun utf8_decode :: "bytes \<Rightarrow> str option" where
  "utf8_decode [] = Some []"
| "utf8_decode (b0 # bs) =
     (let n0 = unat b0 in
      if n0 < 128 then map_option (Cons n0) (utf8_decode bs)
      else if 194 \<le> n0 \<and> n0 \<le> 223 then
        (case bs of
           b1 # r \<Rightarrow>
             if cont b1 then map_option (Cons ((n0 - 192) * 64 + (unat b1 - 128))) (utf8_decode r)
             else None
         | _ \<Rightarrow> None)
      else if 224 \<le> n0 \<and> n0 \<le> 239 then
        (case bs of
           b1 # b2 # r \<Rightarrow>
             if cont b1 \<and> cont b2 \<and> (n0 = 224 \<longrightarrow> 160 \<le> unat b1) \<and> (n0 = 237 \<longrightarrow> unat b1 \<le> 159)
             then map_option (Cons ((n0 - 224) * 4096 + (unat b1 - 128) * 64 + (unat b2 - 128)))
                    (utf8_decode r)
             else None
         | _ \<Rightarrow> None)
      else if 240 \<le> n0 \<and> n0 \<le> 244 then
        (case bs of
           b1 # b2 # b3 # r \<Rightarrow>
             if cont b1 \<and> cont b2 \<and> cont b3 \<and> (n0 = 240 \<longrightarrow> 144 \<le> unat b1)
                \<and> (n0 = 244 \<longrightarrow> unat b1 \<le> 143)
             then map_option (Cons ((n0 - 240) * 262144 + (unat b1 - 128) * 4096
                                     + (unat b2 - 128) * 64 + (unat b3 - 128)))
                    (utf8_decode r)
             else None
         | _ \<Rightarrow> None)
      else None)"

fun utf8_encode :: "str \<Rightarrow> error + bytes" where
  "utf8_encode [] = Inr []"
| "utf8_encode (c # cs) =
     (if (55296 \<le> c \<and> c \<le> 57343) \<or> c > 1114111 then Inl UnicodeEncodeError
      else case utf8_encode cs of
        Inl e \<Rightarrow> Inl e
      | Inr bs \<Rightarrow>
          Inr ((if c < 128 then [of_nat c]
                else if c < 2048 then [of_nat (192 + c div 64), of_nat (128 + c mod 64)]
                else if c < 65536 then
                  [of_nat (224 + c div 4096), of_nat (128 + c div 64 mod 64), of_nat (128 + c mod 64)]
                else
                  [of_nat (240 + c div 262144), of_nat (128 + c div 4096 mod 64),
                   of_nat (128 + c div 64 mod 64), of_nat (128 + c mod 64)]) @ bs))"

section \<open>Keys\<close>

definition ishex :: "nat \<Rightarrow> bool" where
  \<open>ishex c = (c \<in> set (lit ''0123456789abcdefABCDEF''))\<close>

text \<open>
  \<open>parse_key\<close>: the hexadecimal reading is tried first; an exception of the base64
  decoding is swallowed (\<open>except Exception: pass\<close>) and ends, as a decoding of another
  length does, in the \<open>ValueError\<close> that reports the number of characters.
\<close>

definition parse_key :: "str \<Rightarrow> error + bytes" where
  "parse_key key_str =
     (let trimmed = strip key_str in
      if length trimmed = KEY_LENGTH * 2 \<and> list_all ishex trimmed then fromhex trimmed
      else case b64decode trimmed of
             Inr decoded \<Rightarrow>
               if length decoded = KEY_LENGTH then Inr decoded
               else Inl (InvalidKey (length trimmed))
           | Inl e \<Rightarrow> Inl (InvalidKey (length trimmed)))"

section \<open>Decryption\<close>

text \<open>
  The \<open>cryptography\<close> package is not part of the repository. The record \<open>lib\<close> holds
  what the module sees of it: whether the import succeeded (\<open>CRYPTO_AVAILABLE\<close>), whether
  \<open>AESGCM(key)\<close> accepts a key, and the methods \<open>encrypt\<close> and \<open>decrypt\<close> of the cipher
  (key, nonce, data; no associated data), where \<open>None\<close> is any exception of \<open>decrypt\<close>.
\<close>

record lib =
  CRYPTO_AVAILABLE :: bool
  AESGCM_new :: "bytes \<Rightarrow> bool"
  AESGCM_encrypt :: "bytes \<Rightarrow> bytes \<Rightarrow> bytes \<Rightarrow> bytes"
  AESGCM_decrypt :: "bytes \<Rightarrow> bytes \<Rightarrow> bytes \<Rightarrow> bytes option"

definition decrypt_value :: "lib \<Rightarrow> bytes \<Rightarrow> str \<Rightarrow> error + str" where
  "decrypt_value L key encrypted_value =
     (if \<not> CRYPTO_AVAILABLE L then Inl CryptoUnavailable
      else case re_match VERSIONED_TAG_PATTERN (strip encrypted_value) of
        None \<Rightarrow> Inr encrypted_value
      | Some (m, _) \<Rightarrow>
          (let version = group m 1; payload_b64 = group m 2 in
           if version \<noteq> ENCRYPTION_VERSION then Inl (UnsupportedVersion version)
           else case b64decode payload_b64 of
             Inl e \<Rightarrow> Inl DecodeFailed
           | Inr combined \<Rightarrow>
               if length combined < NONCE_LENGTH then Inl ValueTooShort
               else
                 (let nonce = take NONCE_LENGTH combined;
                      ciphertext = drop NONCE_LENGTH combined in
                  if \<not> AESGCM_new L key then Inl KeySizeError
                  else case AESGCM_decrypt L key nonce ciphertext of
                    None \<Rightarrow> Inl DecryptionFailed
                  | Some plaintext \<Rightarrow>
                      (case utf8_decode plaintext of
                         None \<Rightarrow> Inl UnicodeDecodeError
                       | Some text \<Rightarrow> Inr text))))"

text \<open>
  The replacement function of \<open>decrypt_content_tags\<close> catches every exception of
  \<open>decrypt_value\<close> and returns the tag as it stands; the warning it issues is not part of
  the result. Nothing else in \<open>decrypt_content_tags\<close> raises, so it always returns.
\<close>

definition replacer_tag :: "lib \<Rightarrow> bytes \<Rightarrow> str list \<Rightarrow> unit \<Rightarrow> str \<times> unit" where
  "replacer_tag L key m st =
     (let full_tag = group m 0 in
      case decrypt_value L key full_tag of
        Inr text \<Rightarrow> (text, st)
      | Inl e \<Rightarrow> (full_tag, st))"

definition decrypt_content_tags :: "lib \<Rightarrow> bytes \<Rightarrow> str \<Rightarrow> error + str" where
  "decrypt_content_tags L key content =
     (if \<not> has_encrypted_tags content then Inr content
      else Inr (fst (re_sub VERSIONED_TAG_PATTERN (replacer_tag L key) () content)))"

definition decrypt_or_strip_content :: "lib \<Rightarrow> str \<Rightarrow> bytes option \<Rightarrow> error + str \<times> bool" where
  "decrypt_or_strip_content L content key =
     (if \<not> has_encrypted_tags content then Inr (content, False)
      else case key of
        None \<Rightarrow> Inr (strip_encrypted_tags content, False)
      | Some k \<Rightarrow>
          if CRYPTO_AVAILABLE L then
            (case decrypt_content_tags L k content of
               Inr text \<Rightarrow> Inr (text, True)
             | Inl e \<Rightarrow> Inr (strip_encrypted_tags content, False))
          else Inr (strip_encrypted_tags content, False))"

text \<open>
  The encryption helper of the tests (\<open>encrypt_value\<close> in \<open>test_utils.py\<close>), with the
  nonce, which the helper draws at random, as an argument. The helper imports the cipher
  from the package itself, which fails exactly when the import of the module failed.
\<close>

definition encrypt_value :: "lib \<Rightarrow> bytes \<Rightarrow> bytes \<Rightarrow> str \<Rightarrow> error + str" where
  \<open>encrypt_value L test_key nonce plaintext =
     (if \<not> CRYPTO_AVAILABLE L then Inl ImportError
      else if \<not> AESGCM_new L test_key then Inl KeySizeError
      else case utf8_encode plaintext of
        Inl e \<Rightarrow> Inl e
      | Inr data \<Rightarrow>
          (let ciphertext = AESGCM_encrypt L test_key nonce data;
               combined = nonce @ ciphertext;
               encoded = b64encode combined in
           Inr (lit ''<encrypted v="1">'' @ encoded @ lit ''</encrypted>'')))\<close>

text \<open>
  Two instances of \<open>lib\<close>, for concrete inputs: \<open>no_crypto\<close> is the module where the
  import failed; \<open>toy_lib\<close> is a stand-in for the package whose cipher appends the first
  16 bytes of the key to the data and checks them on decryption.
\<close>

definition no_crypto :: lib where
  "no_crypto = \<lparr>CRYPTO_AVAILABLE = False, AESGCM_new = (\<lambda>k. False),
     AESGCM_encrypt = (\<lambda>k n d. d), AESGCM_decrypt = (\<lambda>k n c. None)\<rparr>"

definition toy_lib :: lib where
  "toy_lib = \<lparr>CRYPTO_AVAILABLE = True,
     AESGCM_new = (\<lambda>k. length k = 16 \<or> length k = 24 \<or> length k = 32),
     AESGCM_encrypt = (\<lambda>k n d. d @ take 16 k),
     AESGCM_decrypt = (\<lambda>k n c.
       if 16 \<le> length c \<and> drop (length c - 16) c = take 16 k
       then Some (take (length c - 16) c) else None)\<rparr>"

text \<open>A key, a nonce and the payload of the span that encrypts \<open>p<w\<close> under \<open>toy_lib\<close>.\<close>

definition sample_key :: bytes where
  "sample_key = replicate 32 7"

definition sample_nonce :: bytes where
  "sample_nonce = replicate 12 1"

definition sample_payload :: str where
  \<open>sample_payload =
     b64encode (sample_nonce @ AESGCM_encrypt toy_lib sample_key sample_nonce (map of_nat (lit ''p<w'')))\<close>

section \<open>Documents made of text and spans\<close>

text \<open>
  A document as a sequence of text, versioned spans and unversioned spans. The payload
  of a span contains no \<open><\<close> and a version is decimal digits, as the patterns demand.
  Text may contain \<open><\<close>, but no \<open><\<close> of it may begin a closing tag
  \<open></encrypted>\<close>, whole or cut off by the end of the text: from each \<open><\<close> on, the text
  differs from the closing tag at a position that both have (\<open>clash\<close>).
\<close>

datatype segment = Text str | Versioned str str | Legacy str

fun render_seg :: "segment \<Rightarrow> str" where
  "render_seg (Text t) = t"
| "render_seg (Versioned v p) = versioned_tag v p"
| "render_seg (Legacy p) = legacy_tag p"

definition render :: "segment list \<Rightarrow> str" where
  "render segs = concat (map render_seg segs)"

fun clash :: "str \<Rightarrow> str \<Rightarrow> bool" where
  "clash (a # u) (b # l) = (a \<noteq> b \<or> clash u l)"
| "clash u l = False"

fun text_ok :: "str \<Rightarrow> bool" where
  "text_ok [] = True"
| \<open>text_ok (c # t) = ((c = of_char CHR ''<'' \<longrightarrow> clash (c # t) (lit ''</encrypted>'')) \<and> text_ok t)\<close>

fun wf_seg :: "segment \<Rightarrow> bool" where
  "wf_seg (Text t) = text_ok t"
| "wf_seg (Versioned v p) = (v \<noteq> [] \<and> list_all isdecimal v \<and> list_all not_lt p)"
| "wf_seg (Legacy p) = list_all not_lt p"

text \<open>
  What the two passes make of a segment: stripping leaves the payload; decryption with
  key \<open>k\<close> puts the plaintext for a versioned span that decrypts and keeps every other
  segment.
\<close>

fun payload :: "segment \<Rightarrow> str" where
  "payload (Text t) = t"
| "payload (Versioned v p) = p"
| "payload (Legacy p) = p"

fun resolve :: "lib \<Rightarrow> bytes \<Rightarrow> segment \<Rightarrow> segment" where
  "resolve L k (Versioned v p) =
     (case decrypt_value L k (versioned_tag v p) of Inr t \<Rightarrow> Text t | Inl e \<Rightarrow> Versioned v p)"
| "resolve L k seg = seg"

section \<open>Notions used in the proofs\<close>

text \<open>
  \<open>begins_closer s\<close>: the first \<open><\<close> of \<open>s\<close> begins a closing tag. \<open>decrypt_spans\<close> is the
  substitution of \<open>decrypt_content_tags\<close> without its pre-check.
\<close>

fun begins_closer :: "str \<Rightarrow> bool" where
  "begins_closer [] = False"
| \<open>begins_closer (c # s) =
     (if c = of_char CHR ''<'' then strip_prefix (lit ''</encrypted>'') (c # s) \<noteq> None
      else begins_closer s)\<close>


definition decrypt_spans :: "lib \<Rightarrow> bytes \<Rightarrow> str \<Rightarrow> str" where
  "decrypt_spans L key content = fst (re_sub VERSIONED_TAG_PATTERN (replacer_tag L key) () content)"


text \<open>
  \<open>app_rest t\<close> appends \<open>t\<close> to the unread rest of every match; a pattern is local
  before \<open>t\<close> when its matches on \<open>u @ t\<close> are its matches on \<open>u\<close>, so that no match
  reads into \<open>t\<close>. \<open>fm\<close> is the first match of the list.
\<close>

definition app_rest :: "str \<Rightarrow> (str list \<times> str) list \<Rightarrow> (str list \<times> str) list" where
  "app_rest t = map (\<lambda>(g, x). (g, x @ t))"

definition loc :: "str \<Rightarrow> regex \<Rightarrow> bool" where
  "loc t r = (\<forall>u. rmatch r (u @ t) = app_rest t (rmatch r u))"

definition fm :: "regex \<Rightarrow> str \<Rightarrow> (str list \<times> str) option" where
  "fm r s = (case rmatch r s of [] \<Rightarrow> None | x # _ \<Rightarrow> Some x)"

declare re_sub.simps [simp del]

lemma strip_prefix_append: "strip_prefix l (l @ s) = Some s"
  by (induction l) auto

lemma strip_prefix_Some: "strip_prefix l s = Some r \<longleftrightarrow> s = l @ r"
  by (induction l s rule: strip_prefix.induct) auto

lemma strip_prefix_avoid:
  "c \<notin> set l \<Longrightarrow> strip_prefix l (u @ c # w) = map_option (\<lambda>x. x @ c # w) (strip_prefix l u)"
proof (induction l arbitrary: u)
  case Nil
  then show ?case by simp
next
  case (Cons a l)
  then show ?case by (cases u) auto
qed

lemma strip_prefix_avoid_tl:
  assumes "u \<noteq> []" and "c \<notin> set (tl l)"
  shows "strip_prefix l (u @ c # w) = map_option (\<lambda>x. x @ c # w) (strip_prefix l u)"
proof (cases l)
  case Nil
  then show ?thesis by simp
next
  case (Cons a l')
  obtain d u' where u: "u = d # u'" using assms(1) by (cases u) auto
  show ?thesis using assms(2) Cons u by (simp add: strip_prefix_avoid)
qed

lemma app_rest_simps [simp]:
  "app_rest t [] = []" "app_rest t ((g, x) # ys) = (g, x @ t) # app_rest t ys"
  "app_rest t (xs @ ys) = app_rest t xs @ app_rest t ys"
  by (simp_all add: app_rest_def)

lemma loc_Lit: "c \<notin> set l \<Longrightarrow> loc (c # w) (Lit l)"
  by (simp add: loc_def strip_prefix_avoid split: option.splits)

lemma loc_Lit_head:
  assumes "c \<notin> set (tl l)" and "strip_prefix l (c # w) = None"
  shows "loc (c # w) (Lit l)"
  unfolding loc_def
proof
  fix u
  show "rmatch (Lit l) (u @ c # w) = app_rest (c # w) (rmatch (Lit l) u)"
  proof (cases u)
    case Nil
    have "strip_prefix l [] = None" using assms(2) by (cases l) auto
    then show ?thesis using Nil assms(2) by simp
  next
    case (Cons d u')
    then have "u \<noteq> []" by simp
    from strip_prefix_avoid_tl[OF this assms(1)] show ?thesis
      by (simp split: option.splits)
  qed
qed

lemma loc_Cls: "\<not> p c \<Longrightarrow> loc (c # w) (Cls p)"
  unfolding loc_def
proof
  fix u assume "\<not> p c"
  then show "rmatch (Cls p) (u @ c # w) = app_rest (c # w) (rmatch (Cls p) u)"
    by (cases u) auto
qed

lemma takeWhile_stop: "\<not> p c \<Longrightarrow> length (takeWhile p (u @ c # w)) = length (takeWhile p u)"
  by (induction u) auto

lemma loc_Star: "\<not> p c \<Longrightarrow> loc (c # w) (Star p)"
  unfolding loc_def
proof
  fix u assume npc: "\<not> p c"
  have le: "length (takeWhile p u) \<le> length u" by (rule length_takeWhile_le)
  show "rmatch (Star p) (u @ c # w) = app_rest (c # w) (rmatch (Star p) u)"
    using le by (simp add: takeWhile_stop[of p c, OF npc] app_rest_def del: upt_Suc)
qed

lemma loc_Plus: "\<not> p c \<Longrightarrow> loc (c # w) (Plus p)"
  unfolding loc_def
proof
  fix u assume npc: "\<not> p c"
  have le: "length (takeWhile p u) \<le> length u" by (rule length_takeWhile_le)
  show "rmatch (Plus p) (u @ c # w) = app_rest (c # w) (rmatch (Plus p) u)"
    using le by (simp add: takeWhile_stop[of p c, OF npc] app_rest_def del: upt_Suc)
qed

lemma loc_Opt: "loc t r \<Longrightarrow> loc t (Opt r)"
  by (simp add: loc_def)

lemma app_rest_concat: "app_rest t (concat xss) = concat (map (app_rest t) xss)"
  by (induction xss) auto

lemma seq_step:
  assumes "rmatch a (u @ t) = app_rest t (rmatch a u)" and "loc t b"
  shows "rmatch (Seq a b) (u @ t) = app_rest t (rmatch (Seq a b) u)"
proof -
  have b: "\<And>x. rmatch b (x @ t) = app_rest t (rmatch b x)" using assms(2) by (simp add: loc_def)
  show ?thesis
    by (simp add: assms(1) app_rest_concat) (simp add: app_rest_def b comp_def case_prod_unfold)
qed

lemma loc_Seq: "loc t a \<Longrightarrow> loc t b \<Longrightarrow> loc t (Seq a b)"
  using seq_step by (simp add: loc_def del: rmatch.simps)

lemma loc_Grp:
  assumes "loc t r" shows "loc t (Grp r)"
  unfolding loc_def
proof
  fix u
  have r: "rmatch r (u @ t) = app_rest t (rmatch r u)" using assms by (simp add: loc_def)
  show "rmatch (Grp r) (u @ t) = app_rest t (rmatch (Grp r) u)"
    by (simp add: r) (simp add: app_rest_def comp_def case_prod_unfold)
qed


lemma re_match_loc:
  assumes "rmatch r (u @ t) = app_rest t (rmatch r u)"
  shows "re_match r (u @ t) = map_option (\<lambda>(m, x). (m, x @ t)) (re_match r u)"
proof (cases "rmatch r u")
  case Nil
  then show ?thesis using assms by (simp add: re_match_def)
next
  case (Cons a list)
  obtain g x where a: "a = (g, x)" by (cases a)
  show ?thesis using assms Cons a by (simp add: re_match_def)
qed

lemma re_sub_Nil: "re_match r [] = None \<Longrightarrow> re_sub r f st [] = ([], st)"
  by (simp add: re_sub.simps)

lemma re_sub_skip:
  "re_match r (c # s) = None \<Longrightarrow> re_sub r f st (c # s) = emit [c] (re_sub r f st s)"
  by (simp add: re_sub.simps)

lemma re_sub_hit:
  "re_match r s = Some (m, rest) \<Longrightarrow> length rest < length s \<Longrightarrow>
   re_sub r f st s = (case f m st of (rep, st1) \<Rightarrow> emit rep (re_sub r f st1 rest))"
  by (subst re_sub.simps) simp

lemma emit_emit: "emit a (emit b x) = emit (a @ b) x"
  by (cases x) simp

lemma emit_Nil [simp]: "emit [] x = x"
  by (cases x) simp

lemma emit_case: "emit a (case x of (o1, st1) \<Rightarrow> emit o1 (h st1)) = (case emit a x of (o1, st1) \<Rightarrow> emit o1 (h st1))"
  by (cases x) (simp add: emit_emit)

lemma re_sub_append:
  assumes ne: "\<And>u. u \<noteq> [] \<Longrightarrow> rmatch r (u @ t) = app_rest t (rmatch r u)"
    and emp: "re_match r [] = None"
  shows "re_sub r f st (u @ t) = (case re_sub r f st u of (o1, st1) \<Rightarrow> emit o1 (re_sub r f st1 t))"
proof (induction u arbitrary: st rule: length_induct)
  case (1 u)
  show ?case
  proof (cases u)
    case Nil
    then show ?thesis by (simp add: re_sub_Nil[OF emp])
  next
    case (Cons c cs)
    then have une: "u \<noteq> []" by simp
    have m: "re_match r (u @ t) = map_option (\<lambda>(m, x). (m, x @ t)) (re_match r u)"
      by (rule re_match_loc) (rule ne[OF une])
    have ihcs: "\<And>st. re_sub r f st (cs @ t) = (case re_sub r f st cs of (o1, st1) \<Rightarrow> emit o1 (re_sub r f st1 t))"
      using 1 Cons by simp
    show ?thesis
    proof (cases "re_match r u")
      case None
      then have "re_match r (u @ t) = None" using m by simp
      then have "re_sub r f st (u @ t) = emit [c] (re_sub r f st (cs @ t))"
        using Cons re_sub_skip[of r c "cs @ t" f st] by simp
      moreover have "re_sub r f st u = emit [c] (re_sub r f st cs)"
        using None Cons re_sub_skip[of r c cs f st] by simp
      ultimately show ?thesis by (simp add: ihcs emit_case)
    next
      case (Some a)
      obtain mm rest where a: "a = (mm, rest)" by (cases a)
      have mt: "re_match r (u @ t) = Some (mm, rest @ t)" using m Some a by simp
      obtain rep st1 where f: "f mm st = (rep, st1)" by (cases "f mm st")
      show ?thesis
      proof (cases "length rest < length u")
        case True
        have ih: "re_sub r f st1 (rest @ t) = (case re_sub r f st1 rest of (o1, st2) \<Rightarrow> emit o1 (re_sub r f st2 t))"
          using 1 True by simp
        have "re_sub r f st (u @ t) = emit rep (re_sub r f st1 (rest @ t))"
          using re_sub_hit[OF mt, of f st] True f by simp
        moreover have "re_sub r f st u = emit rep (re_sub r f st1 rest)"
          using re_sub_hit[of r u mm rest f st] Some a True f by simp
        ultimately show ?thesis by (simp add: ih emit_case)
      next
        case False
        have "re_sub r f st (u @ t) = emit (rep @ [c]) (re_sub r f st1 (cs @ t))"
          using mt False f Cons by (subst re_sub.simps) simp
        moreover have "re_sub r f st u = emit (rep @ [c]) (re_sub r f st1 cs)"
          using Some a False f Cons by (subst re_sub.simps) simp
        ultimately show ?thesis by (simp add: ihcs emit_case)
      qed
    qed
  qed
qed

lemma re_match_fm:
  "re_match r s = map_option (\<lambda>(g, rest). (take (length s - length rest) s # g, rest)) (fm r s)"
  by (simp add: re_match_def fm_def split: list.splits)

lemma fm_Lit: "fm (Lit l) (l @ s) = Some ([], s)"
  by (simp add: fm_def strip_prefix_append)

lemma fm_Lit_None: "strip_prefix l s = None \<Longrightarrow> fm (Lit l) s = None"
  by (simp add: fm_def)

lemma fm_Seq:
  "fm a s = Some (g1, r1) \<Longrightarrow> fm b r1 = Some (g2, r2) \<Longrightarrow> fm (Seq a b) s = Some (g1 @ g2, r2)"
  by (auto simp: fm_def split: list.splits)

lemma fm_Seq_None: "fm a s = None \<Longrightarrow> fm (Seq a b) s = None"
  by (auto simp: fm_def split: list.splits)

lemma fm_Grp:
  "fm r s = Some (g, r') \<Longrightarrow> fm (Grp r) s = Some (take (length s - length r') s # g, r')"
  by (auto simp: fm_def split: list.splits)

lemma fm_Opt: "fm r s = Some x \<Longrightarrow> fm (Opt r) s = Some x"
  by (auto simp: fm_def split: list.splits)

lemma fm_Opt_None: "fm r s = None \<Longrightarrow> fm (Opt r) s = Some ([], s)"
  by (auto simp: fm_def split: list.splits)

lemma takeWhile_all_stop:
  "list_all p n \<Longrightarrow> s = [] \<or> \<not> p (hd s) \<Longrightarrow> takeWhile p (n @ s) = n"
  by (induction n) (auto simp: takeWhile_eq_Nil_iff  neq_Nil_conv)

lemma rev_upt_hd: "a < b \<Longrightarrow> rev [a ..< Suc b] = b # rev [a ..< b]"
  by simp

lemma fm_Star:
  assumes "list_all p n" and "s = [] \<or> \<not> p (hd s)"
  shows "fm (Star p) (n @ s) = Some ([], s)"
  by (simp add: fm_def takeWhile_all_stop[OF assms])

lemma fm_Plus:
  assumes "list_all p n" and "s = [] \<or> \<not> p (hd s)" and "n \<noteq> []"
  shows "fm (Plus p) (n @ s) = Some ([], s)"
proof -
  have "1 \<le> length n" using assms(3) by (cases n) auto
  then show ?thesis
    by (simp add: fm_def takeWhile_all_stop[OF assms(1,2)])
qed

lemma fm_Plus_None: "s = [] \<or> \<not> p (hd s) \<Longrightarrow> fm (Plus p) s = None"
  by (cases s) (auto simp: fm_def)

lemma fm_Cls: "p c \<Longrightarrow> fm (Cls p) (c # s) = Some ([], s)"
  by (simp add: fm_def)

lemma not_decimal_small: "c < 48 \<Longrightarrow> \<not> isdecimal c"
  by (simp add: isdecimal_def decimal_zeros_def)

lemma not_decimal_60 [simp]: "\<not> isdecimal 60" "\<not> isdecimal 62" "\<not> isdecimal 34"
  by (simp_all add: isdecimal_def decimal_zeros_def)

lemma decimal_49 [simp]: "isdecimal 49" "isdecimal 50"
  by (simp_all add: isdecimal_def decimal_zeros_def)

lemma not_space_60 [simp]: "\<not> isspace 60" "\<not> isspace 62" "\<not> isspace 118"
  by (simp_all add: isspace_def)

lemma not_lt_60 [simp]: "\<not> not_lt 60"
  by (simp add: not_lt_def)

lemma take_append_diff [simp]: "take (length (a @ r) - length r) (a @ r) = a"
  by simp

lemma fm_Grp_app:
  "fm r (a @ s) = Some (g, s) \<Longrightarrow> fm (Grp r) (a @ s) = Some (a # g, s)"
  using fm_Grp[of r "a @ s" g s] by simp

lemma V_fm:
  assumes "v \<noteq> []" and "list_all isdecimal v" and "list_all not_lt p"
  shows "fm VERSIONED_TAG_PATTERN (versioned_tag v p @ post) = Some ([v, p], post)"
proof -
  let ?l1 = \<open>lit ''<encrypted v="''\<close>
  let ?l2 = \<open>lit ''">''\<close>
  let ?l3 = \<open>lit ''</encrypted>''\<close>
  have s5: "fm (Lit ?l3) (?l3 @ post) = Some ([], post)" by (rule fm_Lit)
  have "fm (Star not_lt) (p @ ?l3 @ post) = Some ([], ?l3 @ post)"
    by (rule fm_Star[OF assms(3)]) (simp add: lit_def)
  then have s4: "fm (Grp (Star not_lt)) (p @ ?l3 @ post) = Some ([p], ?l3 @ post)"
    by (rule fm_Grp_app)
  have s3: "fm (Lit ?l2) (?l2 @ p @ ?l3 @ post) = Some ([], p @ ?l3 @ post)" by (rule fm_Lit)
  have "fm (Plus isdecimal) (v @ ?l2 @ p @ ?l3 @ post) = Some ([], ?l2 @ p @ ?l3 @ post)"
    by (rule fm_Plus[OF assms(2) _ assms(1)]) (simp add: lit_def)
  then have s2: "fm (Grp (Plus isdecimal)) (v @ ?l2 @ p @ ?l3 @ post) = Some ([v], ?l2 @ p @ ?l3 @ post)"
    by (rule fm_Grp_app)
  have s1: "fm (Lit ?l1) (?l1 @ v @ ?l2 @ p @ ?l3 @ post) = Some ([], v @ ?l2 @ p @ ?l3 @ post)"
    by (rule fm_Lit)
  have "fm VERSIONED_TAG_PATTERN (?l1 @ v @ ?l2 @ p @ ?l3 @ post) = Some ([] @ [v] @ [] @ [p] @ [], post)"
    unfolding VERSIONED_TAG_PATTERN_def
    by (rule fm_Seq[OF s1] fm_Seq[OF s2] fm_Seq[OF s3] fm_Seq[OF s4] s5)+
  then show ?thesis by (simp add: versioned_tag_def)
qed

lemma V_match:
  assumes "v \<noteq> []" and "list_all isdecimal v" and "list_all not_lt p"
  shows "re_match VERSIONED_TAG_PATTERN (versioned_tag v p @ post)
         = Some ([versioned_tag v p, v, p], post)"
  by (simp add: re_match_fm V_fm[OF assms])

lemma V_prefix:
  \<open>strip_prefix (lit ''<encrypted v="'') s = None \<Longrightarrow> re_match VERSIONED_TAG_PATTERN s = None\<close>
  by (simp add: re_match_fm VERSIONED_TAG_PATTERN_def fm_Seq_None fm_Lit_None)

lemma V_empty: "re_match VERSIONED_TAG_PATTERN [] = None"
  by (rule V_prefix) (simp add: lit_def)

lemma V_cross:
  assumes "u \<noteq> []" and t: \<open>strip_prefix (lit ''</encrypted>'') (60 # w) = None\<close>
  shows "rmatch VERSIONED_TAG_PATTERN (u @ 60 # w) = app_rest (60 # w) (rmatch VERSIONED_TAG_PATTERN u)"
  unfolding VERSIONED_TAG_PATTERN_def
proof (rule seq_step)
  show \<open>rmatch (Lit (lit ''<encrypted v="'')) (u @ 60 # w) = app_rest (60 # w) (rmatch (Lit (lit ''<encrypted v="'')) u)\<close>
    using strip_prefix_avoid_tl[OF assms(1), of 60 \<open>lit ''<encrypted v="''\<close> w]
    by (simp add: lit_def split: option.splits)
next
  show \<open>loc (60 # w) (Seq (Grp (Plus isdecimal)) (Seq (Lit (lit ''">'')) (Seq (Grp (Star not_lt)) (Lit (lit ''</encrypted>'')))))\<close>
    by (intro loc_Seq loc_Grp loc_Plus loc_Star loc_Lit_head[OF _ t] loc_Lit) (simp_all add: lit_def)
qed

lemma A_fm_versioned:
  assumes "v \<noteq> []" and "list_all isdecimal v" and "list_all not_lt p"
  shows "fm ANY_ENCRYPTED_TAG_PATTERN (versioned_tag v p @ post) = Some ([p], post)"
proof -
  let ?l0 = \<open>lit ''<encrypted''\<close>
  let ?sp = \<open>lit '' ''\<close>
  let ?lv = \<open>lit ''v="''\<close>
  let ?lq = \<open>lit ''"''\<close>
  let ?lg = \<open>lit ''>''\<close>
  let ?l3 = \<open>lit ''</encrypted>''\<close>
  let ?r5 = "?l3 @ post"
  let ?r4 = "p @ ?r5"
  let ?r3 = "?lg @ ?r4"
  let ?r2 = "?lq @ ?r3"
  let ?r1 = "v @ ?r2"
  let ?r0 = "?lv @ ?r1"
  have s0: "fm (Lit ?l0) (?l0 @ ?sp @ ?r0) = Some ([], ?sp @ ?r0)" by (rule fm_Lit)
  have o1: "fm (Plus isspace) (?sp @ ?r0) = Some ([], ?r0)"
    by (rule fm_Plus) (simp_all add: lit_def isspace_def)
  have o2: "fm (Lit ?lv) ?r0 = Some ([], ?r1)" by (rule fm_Lit)
  have o3: "fm (Plus isdecimal) ?r1 = Some ([], ?r2)"
    by (rule fm_Plus[OF assms(2) _ assms(1)]) (simp add: lit_def)
  have o4: "fm (Lit ?lq) ?r2 = Some ([], ?r3)" by (rule fm_Lit)
  have "fm (Seq (Plus isspace) (Seq (Lit ?lv) (Seq (Plus isdecimal) (Lit ?lq)))) (?sp @ ?r0)
        = Some ([] @ [] @ [] @ [], ?r3)"
    by (rule fm_Seq[OF o1] fm_Seq[OF o2] fm_Seq[OF o3] o4)+
  then have s1: "fm (Opt (Seq (Plus isspace) (Seq (Lit ?lv) (Seq (Plus isdecimal) (Lit ?lq))))) (?sp @ ?r0)
        = Some ([] @ [] @ [] @ [], ?r3)"
    by (rule fm_Opt)
  have s2: "fm (Lit ?lg) ?r3 = Some ([], ?r4)" by (rule fm_Lit)
  have "fm (Star not_lt) ?r4 = Some ([], ?r5)"
    by (rule fm_Star[OF assms(3)]) (simp add: lit_def)
  then have s3: "fm (Grp (Star not_lt)) ?r4 = Some ([p], ?r5)" by (rule fm_Grp_app)
  have s4: "fm (Lit ?l3) ?r5 = Some ([], post)" by (rule fm_Lit)
  have "fm ANY_ENCRYPTED_TAG_PATTERN (?l0 @ ?sp @ ?r0) = Some ([] @ ([] @ [] @ [] @ []) @ [] @ [p] @ [], post)"
    unfolding ANY_ENCRYPTED_TAG_PATTERN_def
    by (rule fm_Seq[OF s0] fm_Seq[OF s1] fm_Seq[OF s2] fm_Seq[OF s3] s4)+
  moreover have "versioned_tag v p @ post = ?l0 @ ?sp @ ?r0"
    by (simp add: versioned_tag_def lit_def)
  ultimately show ?thesis by simp
qed

lemma A_fm_legacy:
  assumes "list_all not_lt p"
  shows "fm ANY_ENCRYPTED_TAG_PATTERN (legacy_tag p @ post) = Some ([p], post)"
proof -
  let ?l0 = \<open>lit ''<encrypted''\<close>
  let ?lv = \<open>lit ''v="''\<close>
  let ?lq = \<open>lit ''"''\<close>
  let ?lg = \<open>lit ''>''\<close>
  let ?l3 = \<open>lit ''</encrypted>''\<close>
  let ?r5 = "?l3 @ post"
  let ?r4 = "p @ ?r5"
  let ?r3 = "?lg @ ?r4"
  have s0: "fm (Lit ?l0) (?l0 @ ?r3) = Some ([], ?r3)" by (rule fm_Lit)
  have "fm (Plus isspace) ?r3 = None"
    by (rule fm_Plus_None) (simp add: lit_def)
  then have "fm (Seq (Plus isspace) (Seq (Lit ?lv) (Seq (Plus isdecimal) (Lit ?lq)))) ?r3 = None"
    by (rule fm_Seq_None)
  then have s1: "fm (Opt (Seq (Plus isspace) (Seq (Lit ?lv) (Seq (Plus isdecimal) (Lit ?lq))))) ?r3
        = Some ([], ?r3)"
    by (rule fm_Opt_None)
  have s2: "fm (Lit ?lg) ?r3 = Some ([], ?r4)" by (rule fm_Lit)
  have "fm (Star not_lt) ?r4 = Some ([], ?r5)"
    by (rule fm_Star[OF assms(1)]) (simp add: lit_def)
  then have s3: "fm (Grp (Star not_lt)) ?r4 = Some ([p], ?r5)" by (rule fm_Grp_app)
  have s4: "fm (Lit ?l3) ?r5 = Some ([], post)" by (rule fm_Lit)
  have "fm ANY_ENCRYPTED_TAG_PATTERN (?l0 @ ?r3) = Some ([] @ [] @ [] @ [p] @ [], post)"
    unfolding ANY_ENCRYPTED_TAG_PATTERN_def
    by (rule fm_Seq[OF s0] fm_Seq[OF s1] fm_Seq[OF s2] fm_Seq[OF s3] s4)+
  moreover have "legacy_tag p @ post = ?l0 @ ?r3"
    by (simp add: legacy_tag_def lit_def)
  ultimately show ?thesis by simp
qed

lemma A_match_versioned:
  assumes "v \<noteq> []" and "list_all isdecimal v" and "list_all not_lt p"
  shows "re_match ANY_ENCRYPTED_TAG_PATTERN (versioned_tag v p @ post)
         = Some ([versioned_tag v p, p], post)"
  by (simp add: re_match_fm A_fm_versioned[OF assms])

lemma A_match_legacy:
  assumes "list_all not_lt p"
  shows "re_match ANY_ENCRYPTED_TAG_PATTERN (legacy_tag p @ post) = Some ([legacy_tag p, p], post)"
  by (simp add: re_match_fm A_fm_legacy[OF assms])

lemma A_prefix:
  \<open>strip_prefix (lit ''<encrypted'') s = None \<Longrightarrow> re_match ANY_ENCRYPTED_TAG_PATTERN s = None\<close>
  by (simp add: re_match_fm ANY_ENCRYPTED_TAG_PATTERN_def fm_Seq_None fm_Lit_None)

lemma A_empty: "re_match ANY_ENCRYPTED_TAG_PATTERN [] = None"
  by (rule A_prefix) (simp add: lit_def)

lemma A_cross:
  assumes "u \<noteq> []" and t: \<open>strip_prefix (lit ''</encrypted>'') (60 # w) = None\<close>
  shows "rmatch ANY_ENCRYPTED_TAG_PATTERN (u @ 60 # w) = app_rest (60 # w) (rmatch ANY_ENCRYPTED_TAG_PATTERN u)"
  unfolding ANY_ENCRYPTED_TAG_PATTERN_def
proof (rule seq_step)
  show \<open>rmatch (Lit (lit ''<encrypted'')) (u @ 60 # w) = app_rest (60 # w) (rmatch (Lit (lit ''<encrypted'')) u)\<close>
    using strip_prefix_avoid_tl[OF assms(1), of 60 \<open>lit ''<encrypted''\<close> w]
    by (simp add: lit_def split: option.splits)
next
  show \<open>loc (60 # w) (Seq (Opt (Seq (Plus isspace) (Seq (Lit (lit ''v="'')) (Seq (Plus isdecimal) (Lit (lit ''"''))))))
         (Seq (Lit (lit ''>'')) (Seq (Grp (Star not_lt)) (Lit (lit ''</encrypted>'')))))\<close>
    by (intro loc_Seq loc_Opt loc_Grp loc_Plus loc_Star loc_Lit_head[OF _ t] loc_Lit) (simp_all add: lit_def)
qed

lemma name_char_facts [simp]: "\<not> name_char 125" "\<not> name_char 36" "\<not> name_start 36"
  by (simp_all add: name_char_def name_start_def)

lemma E_fm:
  assumes "valid_name n"
  shows "fm ENV_PLACEHOLDER_PATTERN (placeholder n @ post) = Some ([n], post)"
proof -
  obtain c cs where n: "n = c # cs" and c: "name_start c" and cs: "list_all name_char cs"
    using assms by (auto simp: valid_name_def split: list.splits)
  let ?l1 = \<open>lit ''${''\<close>
  let ?l2 = \<open>lit ''}''\<close>
  have s1: "fm (Lit ?l1) (?l1 @ n @ ?l2 @ post) = Some ([], n @ ?l2 @ post)" by (rule fm_Lit)
  have a: "fm (Cls name_start) (c # cs @ ?l2 @ post) = Some ([], cs @ ?l2 @ post)"
    by (rule fm_Cls[of name_start c, OF c])
  have b: "fm (Star name_char) (cs @ ?l2 @ post) = Some ([], ?l2 @ post)"
    by (rule fm_Star[OF cs]) (simp add: lit_def)
  have "fm (Seq (Cls name_start) (Star name_char)) (n @ ?l2 @ post) = Some ([] @ [], ?l2 @ post)"
    unfolding n append_Cons by (rule fm_Seq[OF a b])
  then have "fm (Seq (Cls name_start) (Star name_char)) (n @ ?l2 @ post) = Some ([], ?l2 @ post)"
    by simp
  then have s2: "fm (Grp (Seq (Cls name_start) (Star name_char))) (n @ ?l2 @ post) = Some ([n], ?l2 @ post)"
    by (rule fm_Grp_app)
  have s3: "fm (Lit ?l2) (?l2 @ post) = Some ([], post)" by (rule fm_Lit)
  have "fm ENV_PLACEHOLDER_PATTERN (?l1 @ n @ ?l2 @ post) = Some ([] @ [n] @ [], post)"
    unfolding ENV_PLACEHOLDER_PATTERN_def
    by (rule fm_Seq[OF s1] fm_Seq[OF s2] s3)+
  then show ?thesis by (simp add: placeholder_def)
qed

lemma E_match:
  "valid_name n \<Longrightarrow> re_match ENV_PLACEHOLDER_PATTERN (placeholder n @ post) = Some ([placeholder n, n], post)"
  by (simp add: re_match_fm E_fm)

lemma E_prefix:
  \<open>strip_prefix (lit ''${'') s = None \<Longrightarrow> re_match ENV_PLACEHOLDER_PATTERN s = None\<close>
  by (simp add: re_match_fm ENV_PLACEHOLDER_PATTERN_def fm_Seq_None fm_Lit_None)

lemma E_empty: "re_match ENV_PLACEHOLDER_PATTERN [] = None"
  by (rule E_prefix) (simp add: lit_def)

lemma E_cross:
  assumes "u \<noteq> []"
  shows "rmatch ENV_PLACEHOLDER_PATTERN (u @ 36 # w) = app_rest (36 # w) (rmatch ENV_PLACEHOLDER_PATTERN u)"
  unfolding ENV_PLACEHOLDER_PATTERN_def
proof (rule seq_step)
  show \<open>rmatch (Lit (lit ''${'')) (u @ 36 # w) = app_rest (36 # w) (rmatch (Lit (lit ''${'')) u)\<close>
    using strip_prefix_avoid_tl[OF assms(1), of 36 \<open>lit ''${''\<close> w]
    by (simp add: lit_def split: option.splits)
next
  show \<open>loc (36 # w) (Seq (Grp (Seq (Cls name_start) (Star name_char))) (Lit (lit ''}'')))\<close>
    by (intro loc_Seq loc_Grp loc_Cls loc_Star loc_Lit) (simp_all add: lit_def)
qed

lemma re_sub_text:
  assumes "\<forall>c\<in>set t. \<forall>s. re_match r (c # s) = None"
  shows "re_sub r f st (t @ s) = emit t (re_sub r f st s)"
  using assms
proof (induction t)
  case Nil
  then show ?case by simp
next
  case (Cons c t)
  have "re_match r (c # t @ s) = None" using Cons.prems by simp
  then have "re_sub r f st (c # t @ s) = emit [c] (re_sub r f st (t @ s))"
    by (rule re_sub_skip)
  then show ?case using Cons by (simp add: emit_emit)
qed

lemma str_in_iff: "str_in p s \<longleftrightarrow> (\<exists>a b. s = a @ p @ b)"
proof (induction s)
  case Nil
  then show ?case by auto
next
  case (Cons c s)
  show ?case
  proof
    assume "str_in p (c # s)"
    then consider r where "strip_prefix p (c # s) = Some r" | "str_in p s" by auto
    then show "\<exists>a b. c # s = a @ p @ b"
    proof cases
      case 1
      then have "c # s = [] @ p @ r" by (simp add: strip_prefix_Some)
      then show ?thesis by blast
    next
      case 2
      then obtain a b where "s = a @ p @ b" using Cons by auto
      then have "c # s = (c # a) @ p @ b" by simp
      then show ?thesis by blast
    qed
  next
    assume "\<exists>a b. c # s = a @ p @ b"
    then obtain a b where ab: "c # s = a @ p @ b" by auto
    show "str_in p (c # s)"
    proof (cases a)
      case Nil
      then have "strip_prefix p (c # s) = Some b" using ab by (simp add: strip_prefix_Some)
      then show ?thesis by simp
    next
      case (Cons d a')
      then have "s = a' @ p @ b" using ab by simp
      then have "str_in p s" using Cons.IH by auto
      then show ?thesis by simp
    qed
  qed
qed

lemma re_sub_no_opener:
  assumes pre: "\<And>s. strip_prefix l s = None \<Longrightarrow> re_match r s = None"
    and "l \<noteq> []" and "\<not> str_in l s"
  shows "re_sub r f st s = (s, st)"
  using assms(3)
proof (induction s)
  case Nil
  have "strip_prefix l [] = None" using assms(2) by (cases l) auto
  then show ?case by (simp add: re_sub_Nil pre)
next
  case (Cons c s)
  then have "strip_prefix l (c # s) = None" and "\<not> str_in l s" by auto
  then show ?case using Cons.IH by (simp add: re_sub_skip pre)
qed

lemma fst_emit [simp]: "fst (emit p x) = p @ fst x"
  by (cases x) simp

lemma snd_emit [simp]: "snd (emit p x) = snd x"
  by (cases x) simp

lemma re_sub_acc:
  assumes f: "\<And>m st. f m st = (g m, st @ h m)"
  shows "re_sub r f st s = (fst (re_sub r f [] s), st @ snd (re_sub r f [] s))"
proof (induction s arbitrary: st rule: length_induct)
  case (1 s)
  have ih: "\<And>s' st'. length s' < length s \<Longrightarrow>
      re_sub r f st' s' = (fst (re_sub r f [] s'), st' @ snd (re_sub r f [] s'))"
    using 1 by blast
  have e: "\<And>p x a. emit p (fst x, a @ snd x) = (fst (emit p x), a @ snd (emit p x))"
    by simp
  show ?case
  proof (cases "re_match r s")
    case None
    show ?thesis
    proof (cases s)
      case Nil
      then show ?thesis using None by (simp add: re_sub.simps)
    next
      case (Cons c cs)
      have a: "\<And>st. re_sub r f st s = emit [c] (re_sub r f st cs)"
        using None Cons by (simp add: re_sub_skip)
      show ?thesis unfolding a by (subst ih[of cs st]) (simp_all add: Cons e)
    qed
  next
    case (Some a)
    obtain m rest where a: "a = (m, rest)" by (cases a)
    show ?thesis
    proof (cases "length rest < length s")
      case True
      have b: "\<And>st. re_sub r f st s = emit (g m) (re_sub r f (st @ h m) rest)"
        using Some a True by (subst re_sub.simps) (simp add: f)
      have "re_sub r f (st @ h m) rest = (fst (re_sub r f [] rest), (st @ h m) @ snd (re_sub r f [] rest))"
        by (rule ih[OF True])
      moreover have "re_sub r f ([] @ h m) rest = (fst (re_sub r f [] rest), ([] @ h m) @ snd (re_sub r f [] rest))"
        by (rule ih[OF True])
      ultimately show ?thesis unfolding b by simp
    next
      case False
      show ?thesis
      proof (cases s)
        case Nil
        then show ?thesis using Some a by (simp add: re_sub.simps f)
      next
        case (Cons c cs)
        have b: "\<And>st. re_sub r f st s = emit (g m @ [c]) (re_sub r f (st @ h m) cs)"
          using Some a False Cons by (subst re_sub.simps) (simp add: f)
        have l: "length cs < length s" using Cons by simp
        have "re_sub r f (st @ h m) cs = (fst (re_sub r f [] cs), (st @ h m) @ snd (re_sub r f [] cs))"
          by (rule ih[OF l])
        moreover have "re_sub r f ([] @ h m) cs = (fst (re_sub r f [] cs), ([] @ h m) @ snd (re_sub r f [] cs))"
          by (rule ih[OF l])
        ultimately show ?thesis unfolding b by simp
      qed
    qed
  qed
qed

lemma versioned_tag_head:
  \<open>\<exists>w. versioned_tag v p @ post = 60 # w \<and> strip_prefix (lit ''</encrypted>'') (60 # w) = None\<close>
  by (simp add: versioned_tag_def lit_def)

lemma legacy_tag_head:
  \<open>\<exists>w. legacy_tag p @ post = 60 # w \<and> strip_prefix (lit ''</encrypted>'') (60 # w) = None\<close>
  by (simp add: legacy_tag_def lit_def)

lemma strip_Nil: "strip_encrypted_tags [] = []"
  by (simp add: strip_encrypted_tags_def re_sub_Nil A_empty)

lemma tag_length: "length post < length (versioned_tag v p @ post)" "length post < length (legacy_tag p @ post)"
  by (simp_all add: versioned_tag_def legacy_tag_def lit_def)

lemma strip_versioned:
  assumes "v \<noteq> []" and "list_all isdecimal v" and "list_all not_lt p"
  shows "strip_encrypted_tags (versioned_tag v p @ post) = p @ strip_encrypted_tags post"
  unfolding strip_encrypted_tags_def
  by (subst re_sub_hit[OF A_match_versioned[OF assms] tag_length(1)]) (simp add: group_def)

lemma strip_legacy:
  assumes "list_all not_lt p"
  shows "strip_encrypted_tags (legacy_tag p @ post) = p @ strip_encrypted_tags post"
  unfolding strip_encrypted_tags_def
  by (subst re_sub_hit[OF A_match_legacy[OF assms] tag_length(2)]) (simp add: group_def)

lemma strip_cross:
  assumes \<open>strip_prefix (lit ''</encrypted>'') (60 # w) = None\<close>
  shows "strip_encrypted_tags (u @ 60 # w) = strip_encrypted_tags u @ strip_encrypted_tags (60 # w)"
  unfolding strip_encrypted_tags_def
  by (subst re_sub_append[OF A_cross[OF _ assms] A_empty]) (simp_all add: split_beta)

lemma strip_span_versioned:
  assumes "v \<noteq> []" and "list_all isdecimal v" and "list_all not_lt p"
  shows "strip_encrypted_tags (pre @ versioned_tag v p @ post)
         = strip_encrypted_tags pre @ p @ strip_encrypted_tags post"
proof -
  obtain w where w: "versioned_tag v p @ post = 60 # w"
    and c: \<open>strip_prefix (lit ''</encrypted>'') (60 # w) = None\<close>
    using versioned_tag_head by blast
  have "strip_encrypted_tags (pre @ 60 # w) = strip_encrypted_tags pre @ strip_encrypted_tags (60 # w)"
    by (rule strip_cross[OF c])
  then show ?thesis using strip_versioned[OF assms, of post] w by simp
qed

lemma strip_span_legacy:
  assumes "list_all not_lt p"
  shows "strip_encrypted_tags (pre @ legacy_tag p @ post)
         = strip_encrypted_tags pre @ p @ strip_encrypted_tags post"
proof -
  obtain w where w: "legacy_tag p @ post = 60 # w"
    and c: \<open>strip_prefix (lit ''</encrypted>'') (60 # w) = None\<close>
    using legacy_tag_head by blast
  have "strip_encrypted_tags (pre @ 60 # w) = strip_encrypted_tags pre @ strip_encrypted_tags (60 # w)"
    by (rule strip_cross[OF c])
  then show ?thesis using strip_legacy[OF assms, of post] w by simp
qed

lemma strip_no_opener:
  assumes \<open>\<not> str_in (lit ''<encrypted'') t\<close>
  shows "strip_encrypted_tags t = t"
  unfolding strip_encrypted_tags_def
  by (subst re_sub_no_opener[OF A_prefix _ assms]) (simp_all add: lit_def)

lemma has_tags_versioned: "has_encrypted_tags (pre @ versioned_tag v p @ post)"
proof -
  have \<open>pre @ versioned_tag v p @ post = pre @ lit ''<encrypted v="'' @ (v @ lit ''">'' @ p @ lit ''</encrypted>'' @ post)\<close>
    by (simp add: versioned_tag_def)
  then show ?thesis unfolding has_encrypted_tags_def str_in_iff by blast
qed

text \<open>
  C4. \<open>strip_encrypted_tags\<close> replaces an encrypted span, versioned or unversioned, by
  its payload \<open>X\<close> without decoding it, for every payload without \<open><\<close>: the tag alone
  gives exactly \<open>X\<close>; a span anywhere in a document gives \<open>X\<close> between the strippings
  of the text before and behind it; text without \<open><encrypted\<close> is unchanged.
\<close>

theorem strip_encrypted_tags_spans:
  assumes "list_all not_lt X" and "v \<noteq> []" and "list_all isdecimal v"
  shows \<open>strip_encrypted_tags (versioned_tag (lit ''1'') X) = X
     \<and> strip_encrypted_tags (legacy_tag X) = X
     \<and> strip_encrypted_tags (pre @ versioned_tag v X @ post)
         = strip_encrypted_tags pre @ X @ strip_encrypted_tags post
     \<and> strip_encrypted_tags (pre @ legacy_tag X @ post)
         = strip_encrypted_tags pre @ X @ strip_encrypted_tags post
     \<and> (\<not> str_in (lit ''<encrypted'') t \<longrightarrow> strip_encrypted_tags t = t)\<close>
proof -
  have one: \<open>lit ''1'' \<noteq> []\<close> \<open>list_all isdecimal (lit ''1'')\<close> by (simp_all add: lit_def)
  have a: \<open>strip_encrypted_tags (versioned_tag (lit ''1'') X) = X\<close>
    using strip_versioned[OF one assms(1), of "[]"] by (simp add: strip_Nil)
  have b: "strip_encrypted_tags (legacy_tag X) = X"
    using strip_legacy[OF assms(1), of "[]"] by (simp add: strip_Nil)
  show ?thesis
    using a b strip_span_versioned[OF assms(2,3,1)] strip_span_legacy[OF assms(1)] strip_no_opener
    by simp
qed

theorem strip_encrypted_tags_spans_witness:
  \<open>list_all not_lt (lit ''secret-value'') \<and> lit ''1'' \<noteq> [] \<and> list_all isdecimal (lit ''1'')
   \<and> strip_encrypted_tags (versioned_tag (lit ''1'') (lit ''secret-value'')) = lit ''secret-value''
   \<and> strip_encrypted_tags (legacy_tag (lit ''secret-value'')) = lit ''secret-value''
   \<and> strip_encrypted_tags (lit ''Key: '' @ versioned_tag (lit ''1'') (lit ''secret-value'') @ lit '' end'')
       = lit ''Key: secret-value end''\<close>
proof -
  have h: \<open>list_all not_lt (lit ''secret-value'')\<close> \<open>lit ''1'' \<noteq> []\<close> \<open>list_all isdecimal (lit ''1'')\<close>
    by (simp_all add: lit_def not_lt_def)
  have t: \<open>\<not> str_in (lit ''<encrypted'') (lit ''Key: '')\<close> \<open>\<not> str_in (lit ''<encrypted'') (lit '' end'')\<close>
    by (simp_all add: lit_def)
  from strip_encrypted_tags_spans[OF h, of \<open>lit ''Key: ''\<close> \<open>lit '' end''\<close> \<open>lit ''Key: ''\<close>]
       strip_encrypted_tags_spans[OF h, of \<open>lit ''Key: ''\<close> \<open>lit '' end''\<close> \<open>lit '' end''\<close>] t h
  show ?thesis by (simp add: lit_def)
qed

lemma strip_id:
  assumes "s \<noteq> []" and "\<not> isspace (hd s)" and "\<not> isspace (last s)"
  shows "strip s = s"
proof -
  have a: "dropWhile isspace s = s" using assms(1,2) by (cases s) auto
  have "rev s \<noteq> []" and "\<not> isspace (hd (rev s))" using assms(1,3) by (simp_all add: hd_rev)
  then have "dropWhile isspace (rev s) = rev s" by (cases "rev s") auto
  then show ?thesis by (simp add: strip_def a)
qed

lemma strip_versioned_tag: "strip (versioned_tag v p) = versioned_tag v p"
  by (rule strip_id) (simp_all add: versioned_tag_def lit_def isspace_def)

lemma V_match_tag:
  assumes "v \<noteq> []" and "list_all isdecimal v" and "list_all not_lt p"
  shows "re_match VERSIONED_TAG_PATTERN (versioned_tag v p) = Some ([versioned_tag v p, v, p], [])"
  using V_match[OF assms, of "[]"] by simp

lemma decrypt_value_tag:
  assumes "v \<noteq> []" and "list_all isdecimal v" and "list_all not_lt p"
  shows "decrypt_value L key (versioned_tag v p) =
     (if \<not> CRYPTO_AVAILABLE L then Inl CryptoUnavailable
      else if v \<noteq> ENCRYPTION_VERSION then Inl (UnsupportedVersion v)
      else case b64decode p of
        Inl e \<Rightarrow> Inl DecodeFailed
      | Inr combined \<Rightarrow>
          if length combined < NONCE_LENGTH then Inl ValueTooShort
          else if \<not> AESGCM_new L key then Inl KeySizeError
          else case AESGCM_decrypt L key (take NONCE_LENGTH combined) (drop NONCE_LENGTH combined) of
            None \<Rightarrow> Inl DecryptionFailed
          | Some plaintext \<Rightarrow>
              (case utf8_decode plaintext of None \<Rightarrow> Inl UnicodeDecodeError | Some text \<Rightarrow> Inr text))"
  by (simp add: decrypt_value_def strip_versioned_tag V_match_tag[OF assms] group_def Let_def split: sum.splits)

lemma decrypt_spans_Nil: "decrypt_spans L k [] = []"
  by (simp add: decrypt_spans_def re_sub_Nil V_empty)

lemma decrypt_spans_hit:
  assumes "v \<noteq> []" and "list_all isdecimal v" and "list_all not_lt p"
  shows "decrypt_spans L k (versioned_tag v p @ post) =
     (case decrypt_value L k (versioned_tag v p) of Inr t \<Rightarrow> t | Inl e \<Rightarrow> versioned_tag v p)
     @ decrypt_spans L k post"
  unfolding decrypt_spans_def
  by (subst re_sub_hit[OF V_match[OF assms] tag_length(1)])
     (simp add: replacer_tag_def group_def split: sum.splits)

lemma decrypt_spans_cross:
  assumes \<open>strip_prefix (lit ''</encrypted>'') (60 # w) = None\<close>
  shows "decrypt_spans L k (u @ 60 # w) = decrypt_spans L k u @ decrypt_spans L k (60 # w)"
  unfolding decrypt_spans_def
  by (subst re_sub_append[OF V_cross[OF _ assms] V_empty]) (simp_all add: split_beta)

lemma decrypt_spans_span:
  assumes "v \<noteq> []" and "list_all isdecimal v" and "list_all not_lt p"
  shows "decrypt_spans L k (pre @ versioned_tag v p @ post) =
     decrypt_spans L k pre
     @ (case decrypt_value L k (versioned_tag v p) of Inr t \<Rightarrow> t | Inl e \<Rightarrow> versioned_tag v p)
     @ decrypt_spans L k post"
proof -
  obtain w where w: "versioned_tag v p @ post = 60 # w"
    and c: \<open>strip_prefix (lit ''</encrypted>'') (60 # w) = None\<close>
    using versioned_tag_head by blast
  have "decrypt_spans L k (pre @ 60 # w) = decrypt_spans L k pre @ decrypt_spans L k (60 # w)"
    by (rule decrypt_spans_cross[OF c])
  then show ?thesis using decrypt_spans_hit[OF assms, of L k post] w by simp
qed

lemma decrypt_spans_no_marker:
  assumes "\<not> has_encrypted_tags s"
  shows "decrypt_spans L k s = s"
  unfolding decrypt_spans_def
  by (subst re_sub_no_opener[OF V_prefix _ assms[unfolded has_encrypted_tags_def]])
     (simp_all add: lit_def)

lemma decrypt_content_tags_eq: "decrypt_content_tags L k s = Inr (decrypt_spans L k s)"
  by (simp add: decrypt_content_tags_def decrypt_spans_no_marker) (simp add: decrypt_spans_def)

lemma decrypt_or_strip_eq:
  "decrypt_or_strip_content L d key =
     (if \<not> has_encrypted_tags d then Inr (d, False)
      else case key of None \<Rightarrow> Inr (strip_encrypted_tags d, False)
        | Some k \<Rightarrow> if CRYPTO_AVAILABLE L then Inr (decrypt_spans L k d, True)
                    else Inr (strip_encrypted_tags d, False))"
  by (simp add: decrypt_or_strip_content_def decrypt_content_tags_eq split: option.splits)

text \<open>
  C9. A document without the opening marker \<open><encrypted v="\<close> comes back from
  \<open>decrypt_or_strip_content\<close> unchanged, with the flag false, under every key and
  whatever the cryptography package does: the pre-check returns before anything is decoded.
\<close>

theorem no_marker_is_noop:
  \<open>\<not> str_in (lit ''<encrypted v="'') d \<Longrightarrow> decrypt_or_strip_content L d key = Inr (d, False)\<close>
  by (simp add: decrypt_or_strip_content_def has_encrypted_tags_def)

theorem no_marker_is_noop_witness:
  \<open>\<not> str_in (lit ''<encrypted v="'') (lit ''Plain content without tags'')
   \<and> decrypt_or_strip_content toy_lib (lit ''Plain content without tags'') (Some [])
       = Inr (lit ''Plain content without tags'', False)
   \<and> decrypt_or_strip_content no_crypto (lit ''Plain content without tags'') None
       = Inr (lit ''Plain content without tags'', False)\<close>
proof -
  have h: \<open>\<not> str_in (lit ''<encrypted v="'') (lit ''Plain content without tags'')\<close>
    by (simp add: lit_def)
  show ?thesis
    using h no_marker_is_noop[OF h, of toy_lib "Some []"] no_marker_is_noop[OF h, of no_crypto None]
    by simp
qed

text \<open>
  C10. A document with an unversioned span \<open><encrypted>X</encrypted>\<close> and no versioned
  marker anywhere is returned unchanged, with the flag false, under every key: its tag is
  not stripped. When the marker is present as well and there is no key, the unversioned
  span is replaced by its payload.
\<close>

theorem legacy_only_unchanged:
  assumes "list_all not_lt X"
  shows "(\<not> has_encrypted_tags (pre @ legacy_tag X @ post) \<longrightarrow>
            decrypt_or_strip_content L (pre @ legacy_tag X @ post) key
            = Inr (pre @ legacy_tag X @ post, False))
       \<and> (has_encrypted_tags (pre @ legacy_tag X @ post) \<longrightarrow>
            decrypt_or_strip_content L (pre @ legacy_tag X @ post) None
            = Inr (strip_encrypted_tags pre @ X @ strip_encrypted_tags post, False))"
  by (simp add: decrypt_or_strip_eq strip_span_legacy[OF assms])

theorem legacy_only_unchanged_witness:
  \<open>decrypt_or_strip_content toy_lib (lit ''Key: <encrypted>secret-value</encrypted>'') (Some [])
     = Inr (lit ''Key: <encrypted>secret-value</encrypted>'', False)
   \<and> decrypt_or_strip_content toy_lib (lit ''Key: <encrypted>secret-value</encrypted>'') None
     = Inr (lit ''Key: <encrypted>secret-value</encrypted>'', False)
   \<and> decrypt_or_strip_content toy_lib
       (lit ''Key: <encrypted>secret-value</encrypted> <encrypted v="1">abc</encrypted>'') None
     = Inr (lit ''Key: secret-value abc'', False)\<close>
proof -
  have x: \<open>list_all not_lt (lit ''secret-value'')\<close> by (simp add: lit_def not_lt_def)
  have d: \<open>lit ''Key: <encrypted>secret-value</encrypted>'' = lit ''Key: '' @ legacy_tag (lit ''secret-value'') @ []\<close>
    \<open>lit ''Key: <encrypted>secret-value</encrypted> <encrypted v="1">abc</encrypted>''
       = lit ''Key: '' @ legacy_tag (lit ''secret-value'') @ lit '' <encrypted v="1">abc</encrypted>''\<close>
    by (simp_all add: legacy_tag_def lit_def)
  have n: \<open>\<not> has_encrypted_tags (lit ''Key: <encrypted>secret-value</encrypted>'')\<close>
    by (simp add: has_encrypted_tags_def lit_def)
  have y: \<open>has_encrypted_tags (lit ''Key: <encrypted>secret-value</encrypted> <encrypted v="1">abc</encrypted>'')\<close>
    by (simp add: has_encrypted_tags_def lit_def)
  have s1: \<open>strip_encrypted_tags (lit ''Key: '') = lit ''Key: ''\<close>
    by (rule strip_no_opener) (simp add: lit_def)
  have s0: \<open>strip_encrypted_tags (lit '' '') = lit '' ''\<close>
    by (rule strip_no_opener) (simp add: lit_def)
  have \<open>strip_encrypted_tags (lit '' '' @ versioned_tag (lit ''1'') (lit ''abc'') @ [])
        = strip_encrypted_tags (lit '' '') @ lit ''abc'' @ strip_encrypted_tags []\<close>
    by (rule strip_span_versioned) (simp_all add: lit_def not_lt_def)
  then have \<open>strip_encrypted_tags (lit '' '' @ versioned_tag (lit ''1'') (lit ''abc'') @ [])
        = lit '' '' @ lit ''abc''\<close>
    by (simp only: s0 strip_Nil append_Nil2)
  moreover have \<open>lit '' '' @ versioned_tag (lit ''1'') (lit ''abc'') @ [] = lit '' <encrypted v="1">abc</encrypted>''\<close>
    by (simp add: versioned_tag_def lit_def)
  ultimately have s2: \<open>strip_encrypted_tags (lit '' <encrypted v="1">abc</encrypted>'') = lit '' '' @ lit ''abc''\<close>
    by simp
  have a: \<open>decrypt_or_strip_content toy_lib (lit ''Key: '' @ legacy_tag (lit ''secret-value'') @ []) (Some [])
     = Inr (lit ''Key: '' @ legacy_tag (lit ''secret-value'') @ [], False)\<close>
    using legacy_only_unchanged[OF x, of \<open>lit ''Key: ''\<close> "[]" toy_lib "Some []"] n
    unfolding d by simp
  have b: \<open>decrypt_or_strip_content toy_lib (lit ''Key: '' @ legacy_tag (lit ''secret-value'') @ []) None
     = Inr (lit ''Key: '' @ legacy_tag (lit ''secret-value'') @ [], False)\<close>
    using legacy_only_unchanged[OF x, of \<open>lit ''Key: ''\<close> "[]" toy_lib None] n
    unfolding d by simp
  have c: \<open>decrypt_or_strip_content toy_lib
       (lit ''Key: '' @ legacy_tag (lit ''secret-value'') @ lit '' <encrypted v="1">abc</encrypted>'') None
     = Inr (lit ''Key: '' @ lit ''secret-value'' @ lit '' '' @ lit ''abc'', False)\<close>
    using legacy_only_unchanged[OF x, of \<open>lit ''Key: ''\<close> \<open>lit '' <encrypted v="1">abc</encrypted>''\<close> toy_lib] y
    unfolding d by (simp only: s1 s2)
  have e: \<open>lit ''Key: '' @ lit ''secret-value'' @ lit '' '' @ lit ''abc'' = lit ''Key: secret-value abc''\<close>
    by (simp add: lit_def)
  show ?thesis unfolding d using a b c e by simp
qed

text \<open>
  C2 (as stated, refuted). The document \<open><encrypted>X</encrypted>\<close> contains an encrypted
  span, but no versioned marker: without a key it is returned as it stands, although
  stripping it would give \<open>X\<close>.
\<close>

theorem strip_without_key_counterexample:
  \<open>decrypt_or_strip_content no_crypto (lit ''<encrypted>X</encrypted>'') None
     = Inr (lit ''<encrypted>X</encrypted>'', False)
   \<and> strip_encrypted_tags (lit ''<encrypted>X</encrypted>'') = lit ''X''\<close>
proof -
  have n: \<open>\<not> has_encrypted_tags (lit ''<encrypted>X</encrypted>'')\<close>
    by (simp add: has_encrypted_tags_def lit_def)
  have \<open>strip_encrypted_tags (legacy_tag (lit ''X'') @ []) = lit ''X'' @ strip_encrypted_tags []\<close>
    by (rule strip_legacy) (simp add: lit_def not_lt_def)
  then have \<open>strip_encrypted_tags (lit ''<encrypted>X</encrypted>'') = lit ''X''\<close>
    by (simp add: strip_Nil legacy_tag_def lit_def)
  then show ?thesis using n by (simp add: decrypt_or_strip_eq)
qed

text \<open>
  C2 (amended). For every document that contains the versioned opening marker
  \<open><encrypted v="\<close>, \<open>decrypt_or_strip_content\<close> with no key does not raise and returns
  the text of \<open>strip_encrypted_tags\<close> with the flag false; a versioned span anywhere in
  the document is replaced by its bare payload and the text before and behind it is
  stripped in the same way.
\<close>

theorem strip_without_key:
  \<open>(str_in (lit ''<encrypted v="'') d \<longrightarrow>
       decrypt_or_strip_content L d None = Inr (strip_encrypted_tags d, False))
   \<and> (v \<noteq> [] \<and> list_all isdecimal v \<and> list_all not_lt X \<longrightarrow>
       decrypt_or_strip_content L (pre @ versioned_tag v X @ post) None
       = Inr (strip_encrypted_tags pre @ X @ strip_encrypted_tags post, False))\<close>
  using has_tags_versioned[of pre v X post]
  by (simp add: decrypt_or_strip_eq strip_span_versioned) (simp add: has_encrypted_tags_def)

theorem strip_without_key_witness:
  \<open>str_in (lit ''<encrypted v="'') (lit ''Key: <encrypted v="1">ciphertext</encrypted>'')
   \<and> decrypt_or_strip_content no_crypto (lit ''Key: <encrypted v="1">ciphertext</encrypted>'') None
     = Inr (lit ''Key: ciphertext'', False)\<close>
proof -
  have d: \<open>lit ''Key: <encrypted v="1">ciphertext</encrypted>''
      = lit ''Key: '' @ versioned_tag (lit ''1'') (lit ''ciphertext'') @ []\<close>
    by (simp add: versioned_tag_def lit_def)
  have h: \<open>str_in (lit ''<encrypted v="'') (lit ''Key: <encrypted v="1">ciphertext</encrypted>'')\<close>
    by (simp add: lit_def)
  have w: \<open>lit ''1'' \<noteq> [] \<and> list_all isdecimal (lit ''1'') \<and> list_all not_lt (lit ''ciphertext'')\<close>
    by (simp add: lit_def not_lt_def)
  have s1: \<open>strip_encrypted_tags (lit ''Key: '') = lit ''Key: ''\<close>
    by (rule strip_no_opener) (simp add: lit_def)
  have \<open>decrypt_or_strip_content no_crypto (lit ''Key: '' @ versioned_tag (lit ''1'') (lit ''ciphertext'') @ []) None
       = Inr (strip_encrypted_tags (lit ''Key: '') @ lit ''ciphertext'' @ strip_encrypted_tags [], False)\<close>
    using w strip_without_key[of \<open>lit ''Key: <encrypted v="1">ciphertext</encrypted>''\<close> no_crypto
        \<open>lit ''1''\<close> \<open>lit ''ciphertext''\<close> \<open>lit ''Key: ''\<close> "[]"]
    by blast
  then have \<open>decrypt_or_strip_content no_crypto (lit ''Key: <encrypted v="1">ciphertext</encrypted>'') None
       = Inr (lit ''Key: '' @ lit ''ciphertext'', False)\<close>
    by (simp only: d s1 strip_Nil append_Nil2)
  moreover have \<open>lit ''Key: '' @ lit ''ciphertext'' = lit ''Key: ciphertext''\<close> by (simp add: lit_def)
  ultimately show ?thesis using h by simp
qed

text \<open>
  C7 (as stated, refuted). With a key but without the cryptography package
  (\<open>CRYPTO_AVAILABLE\<close> false) the guard \<open>key is not None and CRYPTO_AVAILABLE\<close> fails: the
  document with a versioned span is stripped and the flag is false.
\<close>

theorem flag_with_key_counterexample:
  \<open>decrypt_or_strip_content no_crypto (lit ''<encrypted v="1">X</encrypted>'') (Some (replicate 32 0))
     = Inr (lit ''X'', False)\<close>
proof -
  have d: \<open>lit ''<encrypted v="1">X</encrypted>'' = versioned_tag (lit ''1'') (lit ''X'')\<close>
    by (simp add: versioned_tag_def lit_def)
  have h: \<open>has_encrypted_tags (lit ''<encrypted v="1">X</encrypted>'')\<close>
    by (simp add: has_encrypted_tags_def lit_def)
  have \<open>strip_encrypted_tags (versioned_tag (lit ''1'') (lit ''X'') @ []) = lit ''X'' @ strip_encrypted_tags []\<close>
    by (rule strip_versioned) (simp_all add: lit_def not_lt_def)
  then have \<open>strip_encrypted_tags (lit ''<encrypted v="1">X</encrypted>'') = lit ''X''\<close>
    by (simp only: d strip_Nil append_Nil2)
  then show ?thesis using h by (simp add: decrypt_or_strip_eq no_crypto_def)
qed

text \<open>
  C7 (amended). When the document contains the versioned opening marker, a key is given
  and the cryptography package is available, \<open>decrypt_or_strip_content\<close> returns the text
  of \<open>decrypt_content_tags\<close> with the flag true, whatever happened to the spans: a
  document that is one span whose decryption fails comes back unchanged with the flag true.
\<close>

theorem flag_with_key:
  assumes "CRYPTO_AVAILABLE L"
  shows \<open>(str_in (lit ''<encrypted v="'') d \<longrightarrow>
            (\<exists>t. decrypt_content_tags L k d = Inr t
                 \<and> decrypt_or_strip_content L d (Some k) = Inr (t, True)))
       \<and> (v \<noteq> [] \<and> list_all isdecimal v \<and> list_all not_lt p
            \<and> (\<exists>e. decrypt_value L k (versioned_tag v p) = Inl e) \<longrightarrow>
            decrypt_or_strip_content L (versioned_tag v p) (Some k) = Inr (versioned_tag v p, True))\<close>
proof (intro conjI impI)
  assume \<open>str_in (lit ''<encrypted v="'') d\<close>
  then show "\<exists>t. decrypt_content_tags L k d = Inr t \<and> decrypt_or_strip_content L d (Some k) = Inr (t, True)"
    using assms by (simp add: decrypt_or_strip_eq decrypt_content_tags_eq has_encrypted_tags_def)
next
  assume a: "v \<noteq> [] \<and> list_all isdecimal v \<and> list_all not_lt p
            \<and> (\<exists>e. decrypt_value L k (versioned_tag v p) = Inl e)"
  then obtain e where e: "decrypt_value L k (versioned_tag v p) = Inl e" by blast
  have "decrypt_spans L k (versioned_tag v p @ []) =
     (case decrypt_value L k (versioned_tag v p) of Inr t \<Rightarrow> t | Inl e \<Rightarrow> versioned_tag v p)
     @ decrypt_spans L k []"
    using a by (intro decrypt_spans_hit) simp_all
  then have "decrypt_spans L k (versioned_tag v p) = versioned_tag v p"
    by (simp add: e decrypt_spans_Nil)
  then show "decrypt_or_strip_content L (versioned_tag v p) (Some k) = Inr (versioned_tag v p, True)"
    using assms has_tags_versioned[of "[]" v p "[]"] by (simp add: decrypt_or_strip_eq)
qed

theorem flag_with_key_witness:
  \<open>CRYPTO_AVAILABLE toy_lib
   \<and> str_in (lit ''<encrypted v="'') (versioned_tag (lit ''2'') (lit ''anything''))
   \<and> decrypt_value toy_lib (replicate 32 0) (versioned_tag (lit ''2'') (lit ''anything''))
       = Inl (UnsupportedVersion (lit ''2''))
   \<and> decrypt_content_tags toy_lib (replicate 32 0) (versioned_tag (lit ''2'') (lit ''anything''))
       = Inr (versioned_tag (lit ''2'') (lit ''anything''))
   \<and> decrypt_or_strip_content toy_lib (versioned_tag (lit ''2'') (lit ''anything'')) (Some (replicate 32 0))
       = Inr (versioned_tag (lit ''2'') (lit ''anything''), True)\<close>
proof -
  have c: "CRYPTO_AVAILABLE toy_lib" by (simp add: toy_lib_def)
  have w: \<open>lit ''2'' \<noteq> []\<close> \<open>list_all isdecimal (lit ''2'')\<close> \<open>list_all not_lt (lit ''anything'')\<close>
    by (simp_all add: lit_def not_lt_def)
  have m: \<open>str_in (lit ''<encrypted v="'') (versioned_tag (lit ''2'') (lit ''anything''))\<close>
    using has_tags_versioned[of "[]" \<open>lit ''2''\<close> \<open>lit ''anything''\<close> "[]"]
    by (simp add: has_encrypted_tags_def)
  have e: \<open>decrypt_value toy_lib (replicate 32 0) (versioned_tag (lit ''2'') (lit ''anything''))
       = Inl (UnsupportedVersion (lit ''2''))\<close>
    using decrypt_value_tag[OF w, of toy_lib "replicate 32 0"] c
    by (simp add: ENCRYPTION_VERSION_def lit_def)
  note t = flag_with_key[OF c, of \<open>versioned_tag (lit ''2'') (lit ''anything'')\<close> "replicate 32 0"
      \<open>lit ''2''\<close> \<open>lit ''anything''\<close>]
  have r: \<open>decrypt_or_strip_content toy_lib (versioned_tag (lit ''2'') (lit ''anything'')) (Some (replicate 32 0))
       = Inr (versioned_tag (lit ''2'') (lit ''anything''), True)\<close>
    using t w e by blast
  obtain x where x: \<open>decrypt_content_tags toy_lib (replicate 32 0) (versioned_tag (lit ''2'') (lit ''anything'')) = Inr x\<close>
    \<open>decrypt_or_strip_content toy_lib (versioned_tag (lit ''2'') (lit ''anything'')) (Some (replicate 32 0)) = Inr (x, True)\<close>
    using t m by blast
  have "x = versioned_tag (lit ''2'') (lit ''anything'')" using x(2) r by simp
  then show ?thesis using c m e r x(1) by simp
qed

text \<open>
  C5 (as stated, refuted). Without the cryptography package \<open>decrypt_value\<close> raises its
  \<open>RuntimeError\<close> before it looks at the tag, so a span of version 2 does not raise the
  error of an unsupported version.
\<close>

theorem unsupported_version_counterexample:
  \<open>decrypt_value no_crypto (replicate 32 0) (lit ''<encrypted v="2">anything</encrypted>'')
     = Inl CryptoUnavailable\<close>
  by (simp add: decrypt_value_def no_crypto_def)

text \<open>
  C5 (amended). For a span \<open><encrypted v="N">P</encrypted>\<close> whose version \<open>N\<close> is not
  \<open>"1"\<close>: when the cryptography package is available, \<open>decrypt_value\<close> raises the error of
  an unsupported version on it; and, available or not, \<open>decrypt_content_tags\<close> keeps the
  tag as it stands and processes the text before and behind it exactly as it would
  process each on its own.
\<close>

theorem unsupported_version_isolated:
  assumes "v \<noteq> []" and "list_all isdecimal v" and "list_all not_lt p"
    and "v \<noteq> ENCRYPTION_VERSION"
  shows "(CRYPTO_AVAILABLE L \<longrightarrow>
            decrypt_value L key (versioned_tag v p) = Inl (UnsupportedVersion v))
       \<and> (\<exists>a b. decrypt_content_tags L key pre = Inr a
                \<and> decrypt_content_tags L key post = Inr b
                \<and> decrypt_content_tags L key (pre @ versioned_tag v p @ post)
                    = Inr (a @ versioned_tag v p @ b))"
proof -
  have e: "\<exists>e. decrypt_value L key (versioned_tag v p) = Inl e"
    using assms(4) by (simp add: decrypt_value_tag[OF assms(1-3)])
  have "decrypt_spans L key (pre @ versioned_tag v p @ post)
        = decrypt_spans L key pre @ versioned_tag v p @ decrypt_spans L key post"
    using e by (auto simp: decrypt_spans_span[OF assms(1-3)])
  then show ?thesis
    using assms(4) by (simp add: decrypt_content_tags_eq decrypt_value_tag[OF assms(1-3)])
qed

theorem unsupported_version_isolated_witness:
  \<open>lit ''2'' \<noteq> [] \<and> list_all isdecimal (lit ''2'') \<and> list_all not_lt (lit ''anything'')
   \<and> lit ''2'' \<noteq> ENCRYPTION_VERSION \<and> CRYPTO_AVAILABLE toy_lib
   \<and> decrypt_value toy_lib (replicate 32 0) (versioned_tag (lit ''2'') (lit ''anything''))
       = Inl (UnsupportedVersion (lit ''2''))
   \<and> decrypt_content_tags toy_lib (replicate 32 0)
        (lit ''a='' @ versioned_tag (lit ''2'') (lit ''anything'') @ lit '';b'')
       = Inr (lit ''a='' @ versioned_tag (lit ''2'') (lit ''anything'') @ lit '';b'')\<close>
proof -
  have w: \<open>lit ''2'' \<noteq> []\<close> \<open>list_all isdecimal (lit ''2'')\<close> \<open>list_all not_lt (lit ''anything'')\<close>
    \<open>lit ''2'' \<noteq> ENCRYPTION_VERSION\<close>
    by (simp_all add: lit_def not_lt_def ENCRYPTION_VERSION_def)
  have c: "CRYPTO_AVAILABLE toy_lib" by (simp add: toy_lib_def)
  have pa: \<open>decrypt_content_tags toy_lib (replicate 32 0) (lit ''a='') = Inr (lit ''a='')\<close>
    by (simp add: decrypt_content_tags_def has_encrypted_tags_def lit_def)
  have pb: \<open>decrypt_content_tags toy_lib (replicate 32 0) (lit '';b'') = Inr (lit '';b'')\<close>
    by (simp add: decrypt_content_tags_def has_encrypted_tags_def lit_def)
  note t = unsupported_version_isolated[OF w, of toy_lib "replicate 32 0" \<open>lit ''a=''\<close> \<open>lit '';b''\<close>]
  from t obtain a b where ab: \<open>decrypt_content_tags toy_lib (replicate 32 0) (lit ''a='') = Inr a\<close>
    \<open>decrypt_content_tags toy_lib (replicate 32 0) (lit '';b'') = Inr b\<close>
    \<open>decrypt_content_tags toy_lib (replicate 32 0) (lit ''a='' @ versioned_tag (lit ''2'') (lit ''anything'') @ lit '';b'')
       = Inr (a @ versioned_tag (lit ''2'') (lit ''anything'') @ b)\<close>
    by blast
  have \<open>a = lit ''a=''\<close> \<open>b = lit '';b''\<close> using ab(1,2) pa pb by simp_all
  then show ?thesis using w c t ab(3) by simp
qed

lemma replacer_env_acc:
  "replacer_env env m st =
     (case env (group m 1) of Some v \<Rightarrow> v | None \<Rightarrow> group m 0,
      st @ (case env (group m 1) of Some v \<Rightarrow> [] | None \<Rightarrow> [group m 1]))"
  by (simp add: replacer_env_def Let_def split: option.splits)

lemma sub_env_acc:
  "re_sub ENV_PLACEHOLDER_PATTERN (replacer_env env) st s =
     (fst (substitute_placeholders s env), st @ snd (substitute_placeholders s env))"
  unfolding substitute_placeholders_def
  by (rule re_sub_acc[OF replacer_env_acc])

lemma placeholder_length: "length post < length (placeholder n @ post)"
  by (simp add: placeholder_def lit_def)

lemma substitute_Nil: "substitute_placeholders [] env = ([], [])"
  by (simp add: substitute_placeholders_def re_sub_Nil E_empty)

lemma substitute_hit:
  assumes "valid_name n"
  shows "substitute_placeholders (placeholder n @ post) env =
     ((case env n of Some v \<Rightarrow> v | None \<Rightarrow> placeholder n) @ fst (substitute_placeholders post env),
      (case env n of Some v \<Rightarrow> [] | None \<Rightarrow> [n]) @ snd (substitute_placeholders post env))"
proof -
  have "substitute_placeholders (placeholder n @ post) env =
      (case replacer_env env [placeholder n, n] [] of
         (rep, st1) \<Rightarrow> emit rep (re_sub ENV_PLACEHOLDER_PATTERN (replacer_env env) st1 post))"
    unfolding substitute_placeholders_def
    by (rule re_sub_hit[OF E_match[OF assms] placeholder_length])
  then show ?thesis
    by (simp add: replacer_env_acc group_def sub_env_acc[of env _ post] split: option.splits)
qed

lemma substitute_cross:
  "substitute_placeholders (u @ 36 # w) env =
     (fst (substitute_placeholders u env) @ fst (substitute_placeholders (36 # w) env),
      snd (substitute_placeholders u env) @ snd (substitute_placeholders (36 # w) env))"
proof -
  have "substitute_placeholders (u @ 36 # w) env =
      (case substitute_placeholders u env of
         (o1, st1) \<Rightarrow> emit o1 (re_sub ENV_PLACEHOLDER_PATTERN (replacer_env env) st1 (36 # w)))"
    unfolding substitute_placeholders_def
    by (rule re_sub_append[OF E_cross E_empty])
  then show ?thesis by (simp add: sub_env_acc[of env _ "36 # w"] split_beta)
qed

lemma placeholder_head: "\<exists>w. placeholder n @ post = 36 # w"
  by (simp add: placeholder_def lit_def)

lemma substitute_span:
  assumes "valid_name n"
  shows "substitute_placeholders (pre @ placeholder n @ post) env =
     (fst (substitute_placeholders pre env)
        @ (case env n of Some v \<Rightarrow> v | None \<Rightarrow> placeholder n)
        @ fst (substitute_placeholders post env),
      snd (substitute_placeholders pre env)
        @ (case env n of Some v \<Rightarrow> [] | None \<Rightarrow> [n])
        @ snd (substitute_placeholders post env))"
proof -
  obtain w where w: "placeholder n @ post = 36 # w" using placeholder_head by blast
  show ?thesis
    using substitute_cross[of pre w env] substitute_hit[OF assms, of post env] w by simp
qed

lemma substitute_no_opener:
  assumes \<open>\<not> str_in (lit ''${'') t\<close>
  shows "substitute_placeholders t env = (t, [])"
  unfolding substitute_placeholders_def
  by (rule re_sub_no_opener[OF E_prefix _ assms]) (simp_all add: lit_def)

text \<open>
  C8 (as stated, refuted). A name that occurs twice unresolved is recorded twice:
  \<open>substitute_placeholders("${B} ${B}", {})\<close> returns the list \<open>["B", "B"]\<close>.
\<close>

theorem unresolved_once_counterexample:
  \<open>substitute_placeholders (lit ''${B} ${B}'') Map.empty
     = (lit ''${B} ${B}'', [lit ''B'', lit ''B''])\<close>
proof -
  have v: \<open>valid_name (lit ''B'')\<close>
    by (simp add: valid_name_def lit_def name_start_def)
  have d: \<open>lit ''${B} ${B}'' = lit ''${B} '' @ placeholder (lit ''B'') @ []\<close>
    \<open>lit ''${B} '' = [] @ placeholder (lit ''B'') @ lit '' ''\<close>
    by (simp_all add: placeholder_def lit_def)
  have s: \<open>substitute_placeholders (lit '' '') Map.empty = (lit '' '', [])\<close>
    by (rule substitute_no_opener) (simp add: lit_def)
  have a: \<open>substitute_placeholders (lit ''${B} '') Map.empty = (placeholder (lit ''B'') @ lit '' '', [lit ''B''])\<close>
    unfolding d(2) by (subst substitute_span[OF v]) (simp add: s substitute_Nil)
  have \<open>substitute_placeholders (lit ''${B} ${B}'') Map.empty
       = ((placeholder (lit ''B'') @ lit '' '') @ placeholder (lit ''B''), [lit ''B'', lit ''B''])\<close>
    unfolding d(1) by (subst substitute_span[OF v]) (simp add: a substitute_Nil)
  then show ?thesis by (simp add: placeholder_def lit_def)
qed

text \<open>
  C8 (amended). In \<open>substitute_placeholders\<close> a placeholder \<open>${NAME}\<close> (\<open>NAME\<close> matching
  \<open>[A-Za-z_][A-Za-z0-9_]*\<close>) anywhere in a document is replaced by the value of \<open>env\<close>
  when the name is a key of \<open>env\<close>, and is left as it stands when it is not; in that case
  its name is appended to the list of unresolved names, between the names recorded for
  the text before it and those for the text behind it. The list therefore holds one
  entry for every unresolved occurrence, in the order of the occurrences. Text without
  \<open>${\<close> is unchanged and records nothing.
\<close>

theorem substitute_placeholders_span:
  assumes "valid_name n"
  shows \<open>substitute_placeholders (pre @ placeholder n @ post) env =
     (fst (substitute_placeholders pre env)
        @ (case env n of Some v \<Rightarrow> v | None \<Rightarrow> placeholder n)
        @ fst (substitute_placeholders post env),
      snd (substitute_placeholders pre env)
        @ (case env n of Some v \<Rightarrow> [] | None \<Rightarrow> [n])
        @ snd (substitute_placeholders post env))
    \<and> (\<not> str_in (lit ''${'') t \<longrightarrow> substitute_placeholders t env = (t, []))\<close>
  using substitute_span[OF assms] substitute_no_opener by simp

theorem substitute_placeholders_span_witness:
  \<open>valid_name (lit ''NAME'') \<and> valid_name (lit ''B'')
   \<and> substitute_placeholders (lit ''Hello ${NAME}!'') [lit ''NAME'' \<mapsto> lit ''World'']
       = (lit ''Hello World!'', [])
   \<and> substitute_placeholders (lit ''x ${B}'') [lit ''A'' \<mapsto> lit ''x'']
       = (lit ''x ${B}'', [lit ''B''])\<close>
proof -
  have v: \<open>valid_name (lit ''NAME'')\<close> \<open>valid_name (lit ''B'')\<close>
    by (simp_all add: valid_name_def lit_def name_start_def name_char_def)
  have t: \<open>\<not> str_in (lit ''${'') (lit ''Hello '')\<close> \<open>\<not> str_in (lit ''${'') (lit ''!'')\<close>
    \<open>\<not> str_in (lit ''${'') (lit ''x '')\<close> \<open>\<not> str_in (lit ''${'') []\<close>
    by (simp_all add: lit_def)
  have d: \<open>lit ''Hello ${NAME}!'' = lit ''Hello '' @ placeholder (lit ''NAME'') @ lit ''!''\<close>
    \<open>lit ''x ${B}'' = lit ''x '' @ placeholder (lit ''B'') @ []\<close>
    by (simp_all add: placeholder_def lit_def)
  have p: \<open>substitute_placeholders (lit ''Hello '') [lit ''NAME'' \<mapsto> lit ''World''] = (lit ''Hello '', [])\<close>
    \<open>substitute_placeholders (lit ''!'') [lit ''NAME'' \<mapsto> lit ''World''] = (lit ''!'', [])\<close>
    using substitute_placeholders_span[OF v(1), of "[]" "[]" \<open>[lit ''NAME'' \<mapsto> lit ''World'']\<close> \<open>lit ''Hello ''\<close>]
      substitute_placeholders_span[OF v(1), of "[]" "[]" \<open>[lit ''NAME'' \<mapsto> lit ''World'']\<close> \<open>lit ''!''\<close>] t
    by simp_all
  have q: \<open>substitute_placeholders (lit ''x '') [lit ''A'' \<mapsto> lit ''x''] = (lit ''x '', [])\<close>
    \<open>substitute_placeholders [] [lit ''A'' \<mapsto> lit ''x''] = ([], [])\<close>
    using substitute_placeholders_span[OF v(2), of "[]" "[]" \<open>[lit ''A'' \<mapsto> lit ''x'']\<close> \<open>lit ''x ''\<close>]
      substitute_placeholders_span[OF v(2), of "[]" "[]" \<open>[lit ''A'' \<mapsto> lit ''x'']\<close> "[]"] t
    by simp_all
  have ne: \<open>lit ''B'' \<noteq> lit ''A''\<close> by (simp add: lit_def)
  have a: \<open>substitute_placeholders (lit ''Hello '' @ placeholder (lit ''NAME'') @ lit ''!'') [lit ''NAME'' \<mapsto> lit ''World'']
       = (lit ''Hello '' @ lit ''World'' @ lit ''!'', [])\<close>
    using substitute_placeholders_span[OF v(1), of \<open>lit ''Hello ''\<close> \<open>lit ''!''\<close> \<open>[lit ''NAME'' \<mapsto> lit ''World'']\<close> "[]"]
    by (simp add: p)
  have b: \<open>substitute_placeholders (lit ''x '' @ placeholder (lit ''B'') @ []) [lit ''A'' \<mapsto> lit ''x'']
       = (lit ''x '' @ placeholder (lit ''B''), [lit ''B''])\<close>
    using substitute_placeholders_span[OF v(2), of \<open>lit ''x ''\<close> "[]" \<open>[lit ''A'' \<mapsto> lit ''x'']\<close> "[]"]
    using ne by (simp add: q)
  have e: \<open>lit ''Hello '' @ lit ''World'' @ lit ''!'' = lit ''Hello World!''\<close>
    \<open>lit ''x '' @ placeholder (lit ''B'') = lit ''x ${B}''\<close>
    by (simp_all add: placeholder_def lit_def)
  show ?thesis using v a b unfolding d e by simp
qed

lemma V_no_lt: "c \<noteq> 60 \<Longrightarrow> re_match VERSIONED_TAG_PATTERN (c # s) = None"
  by (rule V_prefix) (simp add: lit_def)

lemma A_no_lt: "c \<noteq> 60 \<Longrightarrow> re_match ANY_ENCRYPTED_TAG_PATTERN (c # s) = None"
  by (rule A_prefix) (simp add: lit_def)

lemma not_lt_neq: "list_all not_lt t \<Longrightarrow> \<forall>c\<in>set t. c \<noteq> 60"
  by (auto simp: list_all_iff not_lt_def)

lemma strip_text:
  assumes "list_all not_lt t"
  shows "strip_encrypted_tags (t @ s) = t @ strip_encrypted_tags s"
  unfolding strip_encrypted_tags_def
  by (subst re_sub_text) (use not_lt_neq[OF assms] A_no_lt in auto)

lemma decrypt_spans_text:
  assumes "list_all not_lt t"
  shows "decrypt_spans L k (t @ s) = t @ decrypt_spans L k s"
  unfolding decrypt_spans_def
  by (subst re_sub_text) (use not_lt_neq[OF assms] V_no_lt in auto)

lemma decrypt_spans_skip:
  "re_match VERSIONED_TAG_PATTERN (c # s) = None \<Longrightarrow> decrypt_spans L k (c # s) = c # decrypt_spans L k s"
  by (simp add: decrypt_spans_def re_sub_skip)

lemma decrypt_spans_legacy:
  assumes "list_all not_lt p"
  shows "decrypt_spans L k (legacy_tag p @ s) = legacy_tag p @ decrypt_spans L k s"
proof -
  let ?a = \<open>lit ''encrypted>''\<close>
  let ?b = \<open>lit ''/encrypted>''\<close>
  have a: "list_all not_lt (?a @ p)" using assms by (simp add: lit_def not_lt_def)
  have b: "list_all not_lt ?b" by (simp add: lit_def not_lt_def)
  have sh: "legacy_tag p @ s = 60 # (?a @ p) @ 60 # ?b @ s"
    by (simp add: legacy_tag_def lit_def)
  have m1: "re_match VERSIONED_TAG_PATTERN (60 # (?a @ p) @ 60 # ?b @ s) = None"
    by (rule V_prefix) (simp add: lit_def)
  have m2: "re_match VERSIONED_TAG_PATTERN (60 # ?b @ s) = None"
    by (rule V_prefix) (simp add: lit_def)
  have "decrypt_spans L k (60 # (?a @ p) @ 60 # ?b @ s) = 60 # (?a @ p) @ 60 # ?b @ decrypt_spans L k s"
    by (simp only: decrypt_spans_skip[OF m1] decrypt_spans_text[OF a] decrypt_spans_skip[OF m2]
          decrypt_spans_text[OF b])
  then show ?thesis unfolding sh by (simp add: legacy_tag_def lit_def)
qed

lemma A_open_only: \<open>re_match ANY_ENCRYPTED_TAG_PATTERN (lit ''<encrypted v="1">'') = None\<close>
  by (simp add: re_match_def ANY_ENCRYPTED_TAG_PATTERN_def lit_def isspace_def isdecimal_def
      decimal_zeros_def not_lt_def)

lemma strip_open_only: \<open>strip_encrypted_tags (lit ''<encrypted v="1">'') = lit ''<encrypted v="1">''\<close>
proof -
  have sh: \<open>lit ''<encrypted v="1">'' = 60 # lit ''encrypted v="1">''\<close>
    by (simp add: lit_def)
  have t: \<open>list_all not_lt (lit ''encrypted v="1">'')\<close>
    by (simp add: lit_def not_lt_def)
  have m: \<open>re_match ANY_ENCRYPTED_TAG_PATTERN (60 # lit ''encrypted v="1">'') = None\<close>
    using A_open_only unfolding sh .
  have \<open>strip_encrypted_tags (60 # lit ''encrypted v="1">'')
        = 60 # strip_encrypted_tags (lit ''encrypted v="1">'')\<close>
    unfolding strip_encrypted_tags_def by (subst re_sub_skip[OF m]) simp
  also have \<open>strip_encrypted_tags (lit ''encrypted v="1">'') = lit ''encrypted v="1">''\<close>
    using strip_text[OF t, of "[]"] by (simp add: strip_Nil)
  finally show ?thesis unfolding sh .
qed

text \<open>
  C6 (as stated, refuted). A span nested in the delimiters of another: without a key the
  first application strips the inner span and leaves \<open><encrypted v="1">X</encrypted>\<close>,
  which the second application strips to \<open>X\<close>.
\<close>

theorem idempotence_counterexample:
  \<open>decrypt_or_strip_content no_crypto
       (lit ''<encrypted v="1"><encrypted v="1">X</encrypted></encrypted>'') None
     = Inr (lit ''<encrypted v="1">X</encrypted>'', False)
   \<and> decrypt_or_strip_content no_crypto (lit ''<encrypted v="1">X</encrypted>'') None
     = Inr (lit ''X'', False)\<close>
proof -
  let ?pre = \<open>lit ''<encrypted v="1">''\<close>
  let ?post = \<open>lit ''</encrypted>''\<close>
  let ?tag = \<open>versioned_tag (lit ''1'') (lit ''X'')\<close>
  have w: \<open>lit ''1'' \<noteq> []\<close> \<open>list_all isdecimal (lit ''1'')\<close> \<open>list_all not_lt (lit ''X'')\<close>
    by (simp_all add: lit_def not_lt_def)
  have d0: \<open>lit ''<encrypted v="1"><encrypted v="1">X</encrypted></encrypted>'' = ?pre @ ?tag @ ?post\<close>
    by (simp add: versioned_tag_def lit_def)
  have d1: \<open>lit ''<encrypted v="1">X</encrypted>'' = ?tag\<close>
    by (simp add: versioned_tag_def lit_def)
  have d1': \<open>?pre @ lit ''X'' @ ?post = ?tag\<close>
    by (simp add: versioned_tag_def lit_def)
  have sp: "strip_encrypted_tags ?post = ?post"
    by (rule strip_no_opener) (simp add: lit_def)
  have "strip_encrypted_tags (?pre @ ?tag @ ?post)
        = strip_encrypted_tags ?pre @ lit ''X'' @ strip_encrypted_tags ?post"
    by (rule strip_span_versioned[OF w])
  then have s0: "strip_encrypted_tags (?pre @ ?tag @ ?post) = ?tag"
    by (simp only: strip_open_only sp d1')
  have "strip_encrypted_tags (?tag @ []) = lit ''X'' @ strip_encrypted_tags []"
    by (rule strip_versioned[OF w])
  then have s1: "strip_encrypted_tags ?tag = lit ''X''"
    by (simp add: strip_Nil)
  have h0: "has_encrypted_tags (?pre @ ?tag @ ?post)" by (rule has_tags_versioned)
  have h1: "has_encrypted_tags ?tag" using has_tags_versioned[of "[]" _ _ "[]"] by simp
  show ?thesis unfolding d0 d1 using h0 h1 s0 s1 by (simp add: decrypt_or_strip_eq)
qed

lemma ishex_value: "ishex c \<Longrightarrow> \<not> ascii_space c \<and> (\<exists>v. hex_value c = Some v)"
  by (auto simp: ishex_def lit_def ascii_space_def hex_value_def)

lemma fromhex_hex:
  "list_all ishex s \<Longrightarrow> even (length s) \<Longrightarrow> \<exists>bs. fromhex s = Inr bs \<and> 2 * length bs = length s"
proof (induction s rule: fromhex.induct)
  case 1
  then show ?case by simp
next
  case (2 c)
  then show ?case by simp
next
  case (3 c d cs)
  from 3(3) have c: "ishex c" and d: "ishex d" and cs: "list_all ishex cs" by simp_all
  obtain hi lo where hl: "hex_value c = Some hi" "hex_value d = Some lo" and nsp: "\<not> ascii_space c"
    using ishex_value[OF c] ishex_value[OF d] by blast
  have "even (length cs)" using 3(4) by simp
  then obtain bs where bs: "fromhex cs = Inr bs" "2 * length bs = length cs"
    using 3(2)[OF nsp _ hl(1) hl(2)] cs hl by auto
  then show ?case using hl nsp by simp
qed

lemma fromhex_key:
  assumes "length t = KEY_LENGTH * 2" and "list_all ishex t"
  shows "\<exists>k. fromhex t = Inr k \<and> length k = 32"
proof -
  have "even (length t)" using assms(1) by (simp add: KEY_LENGTH_def)
  from fromhex_hex[OF assms(2) this] obtain bs where "fromhex t = Inr bs" "2 * length bs = length t"
    by blast
  then show ?thesis using assms(1) by (simp add: KEY_LENGTH_def)
qed

lemma fromhex_zeros: "fromhex (replicate (2 * n) 48) = Inr (replicate n 0)"
  by (induction n) (simp_all add: ascii_space_def hex_value_def)

text \<open>
  C3. For every input string, with \<open>t\<close> the input stripped of surrounding whitespace:
  a key that \<open>parse_key\<close> returns has exactly 32 bytes; \<open>parse_key\<close> succeeds exactly when
  \<open>t\<close> is 64 hexadecimal digits or the base64 decoding of \<open>t\<close> has exactly 32 bytes; the
  hexadecimal reading comes first and returns the bytes of \<open>bytes.fromhex\<close>, otherwise the
  base64 decoding is returned; in every other case the error is the \<open>ValueError\<close> that
  reports \<open>len(t)\<close>, the number of characters of \<open>t\<close>.
\<close>

theorem parse_key_spec:
  "(\<forall>k. parse_key s = Inr k \<longrightarrow> length k = 32)
   \<and> ((\<exists>k. parse_key s = Inr k) \<longleftrightarrow>
        (length (strip s) = 64 \<and> list_all ishex (strip s))
        \<or> (\<exists>d. b64decode (strip s) = Inr d \<and> length d = 32))
   \<and> (length (strip s) = 64 \<and> list_all ishex (strip s) \<longrightarrow> parse_key s = fromhex (strip s))
   \<and> (\<not> (length (strip s) = 64 \<and> list_all ishex (strip s)) \<longrightarrow>
        (\<forall>d. b64decode (strip s) = Inr d \<and> length d = 32 \<longrightarrow> parse_key s = Inr d))
   \<and> ((\<nexists>k. parse_key s = Inr k) \<longrightarrow> parse_key s = Inl (InvalidKey (length (strip s))))"
proof (cases "length (strip s) = 64 \<and> list_all ishex (strip s)")
  case True
  then have p: "parse_key s = fromhex (strip s)"
    by (simp add: parse_key_def KEY_LENGTH_def)
  obtain k where k: "fromhex (strip s) = Inr k" "length k = 32"
    using fromhex_key[of "strip s"] True by (auto simp: KEY_LENGTH_def)
  show ?thesis using True p k by auto
next
  case False
  then have p: "parse_key s =
     (case b64decode (strip s) of
        Inr decoded \<Rightarrow> if length decoded = 32 then Inr decoded
                       else Inl (InvalidKey (length (strip s)))
      | Inl e \<Rightarrow> Inl (InvalidKey (length (strip s))))"
    by (auto simp: parse_key_def KEY_LENGTH_def Let_def split: sum.splits)
  show ?thesis using False unfolding p by (auto split: sum.splits)
qed

theorem parse_key_spec_witness:
  \<open>parse_key (replicate 64 48) = Inr (replicate 32 0)
   \<and> length (replicate 32 (0 :: 8 word)) = 32
   \<and> parse_key (lit ''abc'') = Inl (InvalidKey 3)\<close>
proof -
  have z: "strip (replicate 64 48) = replicate 64 48"
    by (rule strip_id) (simp_all add: isspace_def)
  have hz: "length (strip (replicate 64 48)) = 64 \<and> list_all ishex (strip (replicate 64 48))"
    unfolding z by (simp add: list_all_iff ishex_def lit_def)
  have fz: "fromhex (replicate 64 48) = Inr (replicate 32 0)"
    using fromhex_zeros[of 32] by simp
  have a: "parse_key (replicate 64 48) = Inr (replicate 32 0)"
    using parse_key_spec[of "replicate 64 48"] hz fz unfolding z by simp
  have sa: \<open>strip (lit ''abc'') = lit ''abc''\<close>
    by (rule strip_id) (simp_all add: lit_def isspace_def)
  have la: \<open>length (lit ''abc'') = 3\<close> by (simp add: lit_def)
  have ba: \<open>b64decode (lit ''abc'') = Inl Base64Error\<close>
    by (simp add: b64decode_def lit_def b64_value_def)
  have "\<nexists>k. parse_key (lit ''abc'') = Inr k"
    using parse_key_spec[of \<open>lit ''abc''\<close>] unfolding sa la ba by simp
  then have b: \<open>parse_key (lit ''abc'') = Inl (InvalidKey 3)\<close>
    using parse_key_spec[of \<open>lit ''abc''\<close>] unfolding sa la by blast
  show ?thesis using a b by simp
qed

lemma unat_byte: "unat (a :: 8 word) < 256"
  using unsigned_less[of a, where 'a = nat] by simp

lemma b64_value_char: "v < 64 \<Longrightarrow> b64_value (b64_char v) = Some v"
  by (auto simp: b64_value_def b64_char_def)

lemma b64_char_props: "v < 64 \<Longrightarrow> b64_char v \<noteq> 61 \<and> b64_char v \<noteq> 60 \<and> b64_char v < 128"
  by (auto simp: b64_char_def)

lemma a2b_char:
  assumes "v < 64"
  shows "a2b_base64 qp lc pads out (b64_char v # cs) =
     (if qp = 0 then a2b_base64 1 v 0 out cs
      else if qp = 1 then a2b_base64 2 (v mod 16) 0 (out @ [of_nat (lc * 4 + v div 16)]) cs
      else if qp = 2 then a2b_base64 3 (v mod 4) 0 (out @ [of_nat (lc * 16 + v div 4)]) cs
      else a2b_base64 0 0 0 (out @ [of_nat (lc * 64 + v)]) cs)"
  using b64_char_props[OF assms] by (simp add: b64_value_char[OF assms])

lemma a2b_quad:
  assumes "v1 < 64" "v2 < 64" "v3 < 64" "v4 < 64"
  shows "a2b_base64 0 0 0 out (b64_char v1 # b64_char v2 # b64_char v3 # b64_char v4 # cs) =
     a2b_base64 0 0 0 (out @ [of_nat (v1 * 4 + v2 div 16), of_nat (v2 mod 16 * 16 + v3 div 4),
        of_nat (v3 mod 4 * 64 + v4)]) cs"
  by (simp only: a2b_char[OF assms(1)] a2b_char[OF assms(2)] a2b_char[OF assms(3)]
      a2b_char[OF assms(4)]) simp

lemma a2b_pad2:
  assumes "v1 < 64" "v2 < 64"
  shows "a2b_base64 0 0 0 out [b64_char v1, b64_char v2, 61, 61] = Inr (out @ [of_nat (v1 * 4 + v2 div 16)])"
  by (simp only: a2b_char[OF assms(1)] a2b_char[OF assms(2)]) simp

lemma a2b_pad1:
  assumes "v1 < 64" "v2 < 64" "v3 < 64"
  shows "a2b_base64 0 0 0 out [b64_char v1, b64_char v2, b64_char v3, 61] =
     Inr (out @ [of_nat (v1 * 4 + v2 div 16), of_nat (v2 mod 16 * 16 + v3 div 4)])"
  by (simp only: a2b_char[OF assms(1)] a2b_char[OF assms(2)] a2b_char[OF assms(3)]) simp


lemma sextets:
  fixes x y :: nat
  assumes "x < 256" and "y < 256"
  shows "x div 4 < 64" "x mod 4 * 16 + y div 16 < 64" "x mod 16 * 4 + y div 64 < 64" "x mod 64 < 64"
    "x mod 4 * 16 < 64" "x mod 16 * 4 < 64"
proof -
  have "x mod 4 < 4" "x mod 16 < 16" "y div 16 < 16" "y div 64 < 4" using assms by auto
  then show "x mod 4 * 16 + y div 16 < 64" "x mod 16 * 4 + y div 64 < 64"
    "x mod 4 * 16 < 64" "x mod 16 * 4 < 64" by linarith+
  show "x div 4 < 64" "x mod 64 < 64" using assms by auto
qed

lemma byte1:
  fixes x y :: nat
  assumes "y < 256"
  shows "x div 4 * 4 + (x mod 4 * 16 + y div 16) div 16 = x"
proof -
  have "y div 16 < 16" using assms by auto
  then have "(x mod 4 * 16 + y div 16) div 16 = x mod 4" by simp
  then show ?thesis by simp
qed

lemma byte2:
  fixes x y z :: nat
  assumes "y < 256" and "z < 256"
  shows "(x mod 4 * 16 + y div 16) mod 16 * 16 + (y mod 16 * 4 + z div 64) div 4 = y"
proof -
  have a: "y div 16 < 16" "z div 64 < 4" using assms by auto
  have "(x mod 4 * 16 + y div 16) mod 16 = y div 16" using a(1) by simp
  moreover have "(y mod 16 * 4 + z div 64) div 4 = y mod 16" using a(2) by simp
  ultimately show ?thesis by simp
qed

lemma byte3:
  fixes y z :: nat
  assumes "z < 256"
  shows "(y mod 16 * 4 + z div 64) mod 4 * 64 + z mod 64 = z"
proof -
  have a: "z div 64 < 4" using assms by auto
  have "(y mod 16 * 4 + z div 64) mod 4 = z div 64" using a by simp
  then show ?thesis by simp
qed

lemma byte1_pad:
  fixes x :: nat
  shows "x div 4 * 4 + (x mod 4 * 16) div 16 = x"
  by simp

lemma byte2_pad:
  fixes x y :: nat
  assumes "y < 256"
  shows "(x mod 4 * 16 + y div 16) mod 16 * 16 + (y mod 16 * 4) div 4 = y"
proof -
  have a: "y div 16 < 16" using assms by auto
  have "(x mod 4 * 16 + y div 16) mod 16 = y div 16" using a by simp
  then show ?thesis by simp
qed


lemma of_nat_unat_byte: "of_nat (unat (a :: 8 word)) = a"
  by simp

lemma a2b_encode: "a2b_base64 0 0 0 out (b64encode bs) = Inr (out @ bs)"
proof (induction bs arbitrary: out rule: b64encode.induct)
  case 1
  then show ?case by simp
next
  case (2 a)
  note s = sextets[OF unat_byte[of a] unat_byte[of a]]
  have "a2b_base64 0 0 0 out (b64encode [a]) =
      Inr (out @ [of_nat (unat a div 4 * 4 + (unat a mod 4 * 16) div 16)])"
    using a2b_pad2[OF s(1) s(5)] by simp
  then show ?case by (simp only: byte1_pad of_nat_unat_byte)
next
  case (3 a b)
  note s = sextets[OF unat_byte[of a] unat_byte[of b]]
  note t = sextets[OF unat_byte[of b] unat_byte[of b]]
  have "a2b_base64 0 0 0 out (b64encode [a, b]) =
      Inr (out @ [of_nat (unat a div 4 * 4 + (unat a mod 4 * 16 + unat b div 16) div 16),
                  of_nat ((unat a mod 4 * 16 + unat b div 16) mod 16 * 16 + (unat b mod 16 * 4) div 4)])"
    using a2b_pad1[OF s(1) s(2) t(6)] by simp
  then show ?case
    by (simp only: byte1[OF unat_byte] byte2_pad[OF unat_byte] of_nat_unat_byte)
next
  case (4 a b c bs)
  note s = sextets[OF unat_byte[of a] unat_byte[of b]]
  note t = sextets[OF unat_byte[of b] unat_byte[of c]]
  note u = sextets[OF unat_byte[of c] unat_byte[of c]]
  have "a2b_base64 0 0 0 out (b64encode (a # b # c # bs)) =
      a2b_base64 0 0 0
        (out @ [of_nat (unat a div 4 * 4 + (unat a mod 4 * 16 + unat b div 16) div 16),
                of_nat ((unat a mod 4 * 16 + unat b div 16) mod 16 * 16
                        + (unat b mod 16 * 4 + unat c div 64) div 4),
                of_nat ((unat b mod 16 * 4 + unat c div 64) mod 4 * 64 + unat c mod 64)])
        (b64encode bs)"
    using a2b_quad[OF s(1) s(2) t(3) u(4)] by simp
  also have "\<dots> = a2b_base64 0 0 0 (out @ [a, b, c]) (b64encode bs)"
    by (simp only: byte1[OF unat_byte] byte2[OF unat_byte unat_byte] byte3[OF unat_byte]
        of_nat_unat_byte)
  finally show ?case by (simp add: 4)
qed

lemma b64encode_chars: "\<forall>c\<in>set (b64encode bs). c < 128 \<and> c \<noteq> 60"
proof (induction bs rule: b64encode.induct)
  case 1
  then show ?case by simp
next
  case (2 a)
  note s = sextets[OF unat_byte[of a] unat_byte[of a]]
  show ?case using b64_char_props[OF s(1)] b64_char_props[OF s(5)] by simp
next
  case (3 a b)
  note s = sextets[OF unat_byte[of a] unat_byte[of b]]
  note t = sextets[OF unat_byte[of b] unat_byte[of b]]
  show ?case using b64_char_props[OF s(1)] b64_char_props[OF s(2)] b64_char_props[OF t(6)] by simp
next
  case (4 a b c bs)
  note s = sextets[OF unat_byte[of a] unat_byte[of b]]
  note t = sextets[OF unat_byte[of b] unat_byte[of c]]
  note u = sextets[OF unat_byte[of c] unat_byte[of c]]
  show ?case
    using b64_char_props[OF s(1)] b64_char_props[OF s(2)] b64_char_props[OF t(3)]
      b64_char_props[OF u(4)] 4 by simp
qed

lemma b64decode_encode: "b64decode (b64encode bs) = Inr bs"
proof -
  have "\<not> list_ex (\<lambda>c. c \<ge> 128) (b64encode bs)"
    using b64encode_chars[of bs] by (auto simp: list_ex_iff)
  then show ?thesis using a2b_encode[of "[]" bs] by (simp add: b64decode_def)
qed

lemma b64encode_no_lt: "list_all not_lt (b64encode bs)"
  using b64encode_chars[of bs] by (auto simp: list_all_iff not_lt_def)

lemma unat_of_nat_byte: "n < 256 \<Longrightarrow> unat (of_nat n :: 8 word) = n"
  by (simp add: unat_of_nat)

lemma cont_byte: "x < 64 \<Longrightarrow> cont (of_nat (128 + x)) \<and> unat (of_nat (128 + x) :: 8 word) - 128 = x"
  by (simp add: cont_def unat_of_nat_byte del: of_nat_add)

lemma div_4096: "(c::nat) div 4096 = c div 64 div 64"
proof -
  have "c div 64 div 64 = c div (64 * 64)" by (rule div_mult2_eq[symmetric])
  then show ?thesis by simp
qed

lemma div64_split: "(c::nat) div 64 = c div 4096 * 64 + c div 64 mod 64"
  unfolding div_4096 by simp

lemma residue_832: "832 \<le> (x::nat) \<Longrightarrow> x < 864 \<Longrightarrow> x mod 64 \<le> 31"
proof -
  assume a: "832 \<le> x" "x < 864"
  have "x div 64 = 13" by (rule div_nat_eqI) (use a in simp_all)
  moreover have "x = x div 64 * 64 + x mod 64" by simp
  ultimately show ?thesis using a by linarith
qed

lemma utf8_one:
  assumes "c < 128"
  shows "utf8_decode (of_nat c # r) = map_option (Cons c) (utf8_decode r)"
  using assms by (simp add: unat_of_nat_byte)

lemma dec2:
  assumes "unat b0 = 192 + h" "2 \<le> h" "h < 32" "unat b1 = 128 + l" "l < 64"
  shows "utf8_decode (b0 # b1 # r) = map_option (Cons (h * 64 + l)) (utf8_decode r)"
  using assms by (simp add: cont_def Let_def)

lemma dec3:
  assumes "unat b0 = 224 + h" "h < 16" "unat b1 = 128 + m" "m < 64" "unat b2 = 128 + l" "l < 64"
    and "h = 0 \<longrightarrow> 32 \<le> m" and "h = 13 \<longrightarrow> m \<le> 31"
  shows "utf8_decode (b0 # b1 # b2 # r) = map_option (Cons (h * 4096 + m * 64 + l)) (utf8_decode r)"
  using assms by (simp add: cont_def Let_def)

lemma dec4:
  assumes "unat b0 = 240 + h" "h < 5" "unat b1 = 128 + m" "m < 64" "unat b2 = 128 + l" "l < 64"
    "unat b3 = 128 + k" "k < 64"
    and "h = 0 \<longrightarrow> 16 \<le> m" and "h = 4 \<longrightarrow> m \<le> 15"
  shows "utf8_decode (b0 # b1 # b2 # b3 # r)
         = map_option (Cons (h * 262144 + m * 4096 + l * 64 + k)) (utf8_decode r)"
  using assms by (simp add: cont_def Let_def)

lemma byte_of: "n < 256 \<Longrightarrow> unat (of_nat n :: 8 word) = n"
  by (rule unat_of_nat_byte)

lemma utf8_two:
  assumes "128 \<le> c" and "c < 2048"
  shows "utf8_decode (of_nat (192 + c div 64) # of_nat (128 + c mod 64) # r)
         = map_option (Cons c) (utf8_decode r)"
proof -
  have d: "c div 64 < 32" "2 \<le> c div 64" using assms by auto
  have m: "c mod 64 < 64" by simp
  have n0: "unat (of_nat (192 + c div 64) :: 8 word) = 192 + c div 64"
    by (rule byte_of) (use d in linarith)
  have n1: "unat (of_nat (128 + c mod 64) :: 8 word) = 128 + c mod 64"
    by (rule byte_of) (use m in linarith)
  have e: "c div 64 * 64 + c mod 64 = c" by simp
  show ?thesis using dec2[OF n0 d(2) d(1) n1 m, of r] unfolding e .
qed

lemma utf8_three:
  assumes "2048 \<le> c" and "c < 65536" and "\<not> (55296 \<le> c \<and> c \<le> 57343)"
  shows "utf8_decode (of_nat (224 + c div 4096) # of_nat (128 + c div 64 mod 64)
            # of_nat (128 + c mod 64) # r)
         = map_option (Cons c) (utf8_decode r)"
proof -
  have d: "c div 4096 < 16" using assms by auto
  have m1: "c div 64 mod 64 < 64" and m2: "c mod 64 < 64" by simp_all
  have n0: "unat (of_nat (224 + c div 4096) :: 8 word) = 224 + c div 4096"
    by (rule byte_of) (use d in linarith)
  have n1: "unat (of_nat (128 + c div 64 mod 64) :: 8 word) = 128 + c div 64 mod 64"
    by (rule byte_of) (use m1 in linarith)
  have n2: "unat (of_nat (128 + c mod 64) :: 8 word) = 128 + c mod 64"
    by (rule byte_of) (use m2 in linarith)
  have lo: "c div 4096 = 0 \<longrightarrow> 32 \<le> c div 64 mod 64"
  proof
    assume "c div 4096 = 0"
    then have "c < 4096" by (simp add: div_eq_0_iff)
    then have "c div 64 < 64" by auto
    moreover have "32 \<le> c div 64" using assms(1) by auto
    ultimately show "32 \<le> c div 64 mod 64" by simp
  qed
  have hi: "c div 4096 = 13 \<longrightarrow> c div 64 mod 64 \<le> 31"
  proof
    assume a: "c div 4096 = 13"
    have c: "c = c div 4096 * 4096 + c mod 4096" by simp
    have ge: "53248 \<le> c" using a c by linarith
    have "c mod 4096 < 4096" by simp
    then have "c < 57344" using a c by linarith
    then have "c < 55296" using assms(3) ge by linarith
    then have "c div 64 < 864" by auto
    moreover have "832 \<le> c div 64" using ge by auto
    ultimately show "c div 64 mod 64 \<le> 31" by (rule residue_832[rotated])
  qed
  have e: "c div 4096 * 4096 + c div 64 mod 64 * 64 + c mod 64 = c"
  proof -
    have "c = c div 64 * 64 + c mod 64" by simp
    then show ?thesis using div64_split[of c] by linarith
  qed
  show ?thesis using dec3[OF n0 d n1 m1 n2 m2 lo hi, of r] unfolding e .
qed


lemma div_262144: "(c::nat) div 262144 = c div 4096 div 64"
proof -
  have "c div 4096 div 64 = c div (4096 * 64)" by (rule div_mult2_eq[symmetric])
  then show ?thesis by simp
qed

lemma div4096_split: "(c::nat) div 4096 = c div 262144 * 64 + c div 4096 mod 64"
  unfolding div_262144 by simp

lemma residue_256: "256 \<le> (x::nat) \<Longrightarrow> x < 272 \<Longrightarrow> x mod 64 \<le> 15"
proof -
  assume a: "256 \<le> x" "x < 272"
  have "x div 64 = 4" by (rule div_nat_eqI) (use a in simp_all)
  moreover have "x = x div 64 * 64 + x mod 64" by simp
  ultimately show ?thesis using a by linarith
qed

lemma utf8_four:
  assumes "65536 \<le> c" and "c \<le> 1114111"
  shows "utf8_decode (of_nat (240 + c div 262144) # of_nat (128 + c div 4096 mod 64)
            # of_nat (128 + c div 64 mod 64) # of_nat (128 + c mod 64) # r)
         = map_option (Cons c) (utf8_decode r)"
proof -
  have d: "c div 262144 < 5" using assms by auto
  have m1: "c div 4096 mod 64 < 64" and m2: "c div 64 mod 64 < 64" and m3: "c mod 64 < 64"
    by simp_all
  have n0: "unat (of_nat (240 + c div 262144) :: 8 word) = 240 + c div 262144"
    by (rule byte_of) (use d in linarith)
  have n1: "unat (of_nat (128 + c div 4096 mod 64) :: 8 word) = 128 + c div 4096 mod 64"
    by (rule byte_of) (use m1 in linarith)
  have n2: "unat (of_nat (128 + c div 64 mod 64) :: 8 word) = 128 + c div 64 mod 64"
    by (rule byte_of) (use m2 in linarith)
  have n3: "unat (of_nat (128 + c mod 64) :: 8 word) = 128 + c mod 64"
    by (rule byte_of) (use m3 in linarith)
  have lo: "c div 262144 = 0 \<longrightarrow> 16 \<le> c div 4096 mod 64"
  proof
    assume "c div 262144 = 0"
    then have "c < 262144" by (simp add: div_eq_0_iff)
    then have "c div 4096 < 64" by auto
    moreover have "16 \<le> c div 4096" using assms(1) by auto
    ultimately show "16 \<le> c div 4096 mod 64" by simp
  qed
  have hi: "c div 262144 = 4 \<longrightarrow> c div 4096 mod 64 \<le> 15"
  proof
    assume a: "c div 262144 = 4"
    have c: "c = c div 262144 * 262144 + c mod 262144" by simp
    have ge: "1048576 \<le> c" using a c by linarith
    have "c < 1114112" using assms(2) by simp
    then have "c div 4096 < 272" by auto
    moreover have "256 \<le> c div 4096" using ge by auto
    ultimately show "c div 4096 mod 64 \<le> 15" by (rule residue_256[rotated])
  qed
  have e: "c div 262144 * 262144 + c div 4096 mod 64 * 4096 + c div 64 mod 64 * 64 + c mod 64 = c"
  proof -
    have "c = c div 64 * 64 + c mod 64" by simp
    then show ?thesis using div64_split[of c] div4096_split[of c] by linarith
  qed
  show ?thesis using dec4[OF n0 d n1 m1 n2 m2 n3 m3 lo hi, of r] unfolding e .
qed

lemma utf8_round_trip: "utf8_encode s = Inr bs \<Longrightarrow> utf8_decode bs = Some s"
proof (induction s arbitrary: bs)
  case Nil
  then show ?case by simp
next
  case (Cons c cs)
  from Cons.prems have v: "\<not> (55296 \<le> c \<and> c \<le> 57343)" "c \<le> 1114111"
    by (auto split: if_splits)
  from Cons.prems v obtain bs' where bs': "utf8_encode cs = Inr bs'"
    by (auto split: sum.splits if_splits)
  have ih: "utf8_decode bs' = Some cs" by (rule Cons.IH[OF bs'])
  consider "c < 128" | "128 \<le> c" "c < 2048" | "2048 \<le> c" "c < 65536" | "65536 \<le> c"
    by linarith
  then show ?case
  proof cases
    case 1
    then have "bs = of_nat c # bs'" using Cons.prems v bs' by simp
    then show ?thesis using utf8_one[OF 1, of bs'] ih by simp
  next
    case 2
    then have "bs = of_nat (192 + c div 64) # of_nat (128 + c mod 64) # bs'"
      using Cons.prems v bs' by (simp del: of_nat_add)
    then show ?thesis using utf8_two[OF 2, of bs'] ih by simp
  next
    case 3
    then have "bs = of_nat (224 + c div 4096) # of_nat (128 + c div 64 mod 64)
            # of_nat (128 + c mod 64) # bs'"
      using Cons.prems v bs' by (simp del: of_nat_add)
    then show ?thesis using utf8_three[OF 3 v(1), of bs'] ih by simp
  next
    case 4
    then have "bs = of_nat (240 + c div 262144) # of_nat (128 + c div 4096 mod 64)
            # of_nat (128 + c div 64 mod 64) # of_nat (128 + c mod 64) # bs'"
      using Cons.prems v bs' by (simp del: of_nat_add)
    then show ?thesis using utf8_four[OF 4 v(2), of bs'] ih by simp
  qed
qed

lemma encrypt_value_Inr:
  assumes "encrypt_value L K nonce P = Inr tag"
  shows "CRYPTO_AVAILABLE L \<and> AESGCM_new L K
     \<and> (\<exists>data. utf8_encode P = Inr data
          \<and> tag = versioned_tag (lit ''1'') (b64encode (nonce @ AESGCM_encrypt L K nonce data)))"
  using assms
  by (auto simp: encrypt_value_def Let_def versioned_tag_def lit_def split: if_splits sum.splits)

lemma round_trip:
  assumes enc: "encrypt_value L K nonce P = Inr tag"
    and n: "length nonce = NONCE_LENGTH"
    and aead: "\<forall>data. AESGCM_decrypt L K nonce (AESGCM_encrypt L K nonce data) = Some data"
  shows "decrypt_value L K tag = Inr P"
proof -
  from encrypt_value_Inr[OF enc] obtain data where c: "CRYPTO_AVAILABLE L" and k: "AESGCM_new L K"
    and d: "utf8_encode P = Inr data"
    and t: "tag = versioned_tag (lit ''1'') (b64encode (nonce @ AESGCM_encrypt L K nonce data))"
    by blast
  let ?ct = "AESGCM_encrypt L K nonce data"
  have w: \<open>lit ''1'' \<noteq> []\<close> \<open>list_all isdecimal (lit ''1'')\<close> by (simp_all add: lit_def)
  have dec: "AESGCM_decrypt L K nonce ?ct = Some data" using aead by blast
  have u: "utf8_decode data = Some P" by (rule utf8_round_trip[OF d])
  show ?thesis
    unfolding t
    by (subst decrypt_value_tag[OF w b64encode_no_lt])
       (simp add: c k ENCRYPTION_VERSION_def b64decode_encode n dec u)
qed

text \<open>
  C1. For every key \<open>K\<close>, every 12-byte nonce and every plaintext \<open>P\<close>: when the
  encryption helper of the tests returns the tag
  \<open><encrypted v="1">BASE64(nonce || AESGCM(K, nonce, P))</encrypted>\<close>, \<open>decrypt_value\<close>
  with the same key returns \<open>P\<close>. The cipher of the cryptography package enters as the
  assumption that decrypting what it has encrypted under \<open>K\<close> and the nonce gives the data
  back; the tag grammar, the base64 coding, the splitting of nonce and ciphertext and the
  UTF-8 coding are those of the model.
\<close>

theorem decrypt_encrypt_round_trip:
  assumes "encrypt_value L K nonce P = Inr tag"
    and "length nonce = NONCE_LENGTH"
    and "\<forall>data. AESGCM_decrypt L K nonce (AESGCM_encrypt L K nonce data) = Some data"
  shows "decrypt_value L K tag = Inr P"
  using assms by (rule round_trip)

lemma toy_aead:
  assumes "16 \<le> length K"
  shows "\<forall>data. AESGCM_decrypt toy_lib K nonce (AESGCM_encrypt toy_lib K nonce data) = Some data"
  using assms by (simp add: toy_lib_def)

lemma utf8_encode_ascii: "\<forall>c\<in>set s. c < 128 \<Longrightarrow> utf8_encode s = Inr (map of_nat s)"
  by (induction s) simp_all

theorem decrypt_encrypt_round_trip_witness:
  \<open>length (replicate 32 (7 :: 8 word)) = KEY_LENGTH
   \<and> length (replicate 12 (1 :: 8 word)) = NONCE_LENGTH
   \<and> (\<exists>tag. encrypt_value toy_lib (replicate 32 7) (replicate 12 1) (lit ''my-secret'') = Inr tag
        \<and> decrypt_value toy_lib (replicate 32 7) tag = Inr (lit ''my-secret''))\<close>
proof -
  let ?K = "replicate 32 (7 :: 8 word)"
  let ?n = "replicate 12 (1 :: 8 word)"
  have l: "length ?K = KEY_LENGTH" "length ?n = NONCE_LENGTH"
    by (simp_all add: KEY_LENGTH_def NONCE_LENGTH_def)
  have a: "\<forall>data. AESGCM_decrypt toy_lib ?K ?n (AESGCM_encrypt toy_lib ?K ?n data) = Some data"
    by (rule toy_aead) simp
  have \<open>utf8_encode (lit ''my-secret'') = Inr (map of_nat (lit ''my-secret''))\<close>
    by (rule utf8_encode_ascii) (simp add: lit_def)
  then obtain tag where e: \<open>encrypt_value toy_lib ?K ?n (lit ''my-secret'') = Inr tag\<close>
    by (simp add: encrypt_value_def toy_lib_def Let_def)
  from decrypt_encrypt_round_trip[OF e l(2) a] e l show ?thesis by blast
qed

lemma in_Lit: "(g, r) \<in> set (rmatch (Lit l) s) \<Longrightarrow> s = l @ r"
proof -
  assume "(g, r) \<in> set (rmatch (Lit l) s)"
  then have "strip_prefix l s = Some r" by (auto split: option.splits)
  then show ?thesis by (simp add: strip_prefix_Some)
qed

lemma in_Seq:
  "(g, r) \<in> set (rmatch (Seq a b) s) \<Longrightarrow>
     \<exists>g1 r1 g2. (g1, r1) \<in> set (rmatch a s) \<and> (g2, r) \<in> set (rmatch b r1)"
  by auto

lemma in_Grp: "(g, r) \<in> set (rmatch (Grp a) s) \<Longrightarrow> \<exists>g'. (g', r) \<in> set (rmatch a s)"
  by auto

lemma take_takeWhile:
  assumes "k \<le> length (takeWhile p s)"
  shows "list_all p (take k s)"
proof -
  have "take k s = take k (takeWhile p s)"
    using assms by (metis append_eq_conv_conj takeWhile_dropWhile_id take_append min.absorb2
        take_take diff_is_0_eq' take_0 append_Nil2 min.commute)
  then show ?thesis
    by (metis list_all_iff set_takeWhileD in_set_takeD)
qed

lemma in_Star:
  "(g, r) \<in> set (rmatch (Star p) s) \<Longrightarrow> \<exists>m. s = m @ r \<and> list_all p m"
proof -
  assume "(g, r) \<in> set (rmatch (Star p) s)"
  then obtain k where "k < Suc (length (takeWhile p s))" and r: "r = drop k s"
    by (auto simp del: upt_Suc)
  then have k: "k \<le> length (takeWhile p s)" by simp
  have "s = take k s @ r" using r by simp
  then show ?thesis using take_takeWhile[OF k] by blast
qed

lemma in_Plus:
  "(g, r) \<in> set (rmatch (Plus p) s) \<Longrightarrow> \<exists>m. s = m @ r \<and> list_all p m"
proof -
  assume "(g, r) \<in> set (rmatch (Plus p) s)"
  then obtain k where "k < Suc (length (takeWhile p s))" and r: "r = drop k s"
    by (auto simp del: upt_Suc)
  then have k: "k \<le> length (takeWhile p s)" by simp
  have "s = take k s @ r" using r by simp
  then show ?thesis using take_takeWhile[OF k] by blast
qed

lemma in_Opt:
  "(g, r) \<in> set (rmatch (Opt a) s) \<Longrightarrow> (g, r) \<in> set (rmatch a s) \<or> r = s"
  by auto

lemma re_match_in:
  "re_match r s \<noteq> None \<Longrightarrow> \<exists>g rest. (g, rest) \<in> set (rmatch r s)"
  by (cases "rmatch r s") (auto simp: re_match_def)

lemma decimal_not_lt: "list_all isdecimal v \<Longrightarrow> 60 \<notin> set v"
  by (auto simp: list_all_iff)

lemma space_not_lt: "list_all isspace v \<Longrightarrow> 60 \<notin> set v"
  by (auto simp: list_all_iff)

lemma not_lt_set: "list_all not_lt v \<Longrightarrow> 60 \<notin> set v"
  by (auto simp: list_all_iff not_lt_def)

lemma V_inv:
  assumes "re_match VERSIONED_TAG_PATTERN x \<noteq> None"
  shows \<open>\<exists>a rest. x = 60 # a @ lit ''</encrypted>'' @ rest \<and> 60 \<notin> set a\<close>
proof -
  from re_match_in[OF assms] obtain g r where m: "(g, r) \<in> set (rmatch VERSIONED_TAG_PATTERN x)"
    by blast
  note m = m[unfolded VERSIONED_TAG_PATTERN_def]
  from in_Seq[OF m] obtain g1 r1 g2 where
    a1: \<open>(g1, r1) \<in> set (rmatch (Lit (lit ''<encrypted v="'')) x)\<close> and
    b1: \<open>(g2, r) \<in> set (rmatch (Seq (Grp (Plus isdecimal)) (Seq (Lit (lit ''">''))
            (Seq (Grp (Star not_lt)) (Lit (lit ''</encrypted>''))))) r1)\<close> by blast
  from in_Seq[OF b1] obtain g3 r2 g4 where
    a2: "(g3, r2) \<in> set (rmatch (Grp (Plus isdecimal)) r1)" and
    b2: \<open>(g4, r) \<in> set (rmatch (Seq (Lit (lit ''">''))
            (Seq (Grp (Star not_lt)) (Lit (lit ''</encrypted>'')))) r2)\<close> by blast
  from in_Seq[OF b2] obtain g5 r3 g6 where
    a3: \<open>(g5, r3) \<in> set (rmatch (Lit (lit ''">'')) r2)\<close> and
    b3: \<open>(g6, r) \<in> set (rmatch (Seq (Grp (Star not_lt)) (Lit (lit ''</encrypted>''))) r3)\<close> by blast
  from in_Seq[OF b3] obtain g7 r4 g8 where
    a4: "(g7, r4) \<in> set (rmatch (Grp (Star not_lt)) r3)" and
    b4: \<open>(g8, r) \<in> set (rmatch (Lit (lit ''</encrypted>'')) r4)\<close> by blast
  have x: \<open>x = lit ''<encrypted v="'' @ r1\<close> by (rule in_Lit[OF a1])
  from in_Grp[OF a2] obtain g' where "(g', r2) \<in> set (rmatch (Plus isdecimal) r1)" by blast
  from in_Plus[OF this] obtain v where v: "r1 = v @ r2" "list_all isdecimal v" by blast
  have r2: \<open>r2 = lit ''">'' @ r3\<close> by (rule in_Lit[OF a3])
  from in_Grp[OF a4] obtain g'' where "(g'', r4) \<in> set (rmatch (Star not_lt) r3)" by blast
  from in_Star[OF this] obtain p where p: "r3 = p @ r4" "list_all not_lt p" by blast
  have r4: \<open>r4 = lit ''</encrypted>'' @ r\<close> by (rule in_Lit[OF b4])
  let ?a = \<open>lit ''encrypted v="'' @ v @ lit ''">'' @ p\<close>
  have \<open>x = 60 # ?a @ lit ''</encrypted>'' @ r\<close>
    unfolding x v(1) r2 p(1) r4 by (simp add: lit_def)
  moreover have "60 \<notin> set ?a"
    using decimal_not_lt[OF v(2)] not_lt_set[OF p(2)] by (simp add: lit_def)
  ultimately show ?thesis by blast
qed


lemma attr_inv:
  assumes \<open>(g, r) \<in> set (rmatch (Seq (Plus isspace) (Seq (Lit (lit ''v="''))
              (Seq (Plus isdecimal) (Lit (lit ''"''))))) s)\<close>
  shows "\<exists>a. s = a @ r \<and> 60 \<notin> set a"
proof -
  from in_Seq[OF assms] obtain g1 r1 g2 where
    a1: "(g1, r1) \<in> set (rmatch (Plus isspace) s)" and
    b1: \<open>(g2, r) \<in> set (rmatch (Seq (Lit (lit ''v="'')) (Seq (Plus isdecimal) (Lit (lit ''"'')))) r1)\<close>
    by blast
  from in_Seq[OF b1] obtain g3 r2 g4 where
    a2: \<open>(g3, r2) \<in> set (rmatch (Lit (lit ''v="'')) r1)\<close> and
    b2: \<open>(g4, r) \<in> set (rmatch (Seq (Plus isdecimal) (Lit (lit ''"''))) r2)\<close> by blast
  from in_Seq[OF b2] obtain g5 r3 g6 where
    a3: "(g5, r3) \<in> set (rmatch (Plus isdecimal) r2)" and
    b3: \<open>(g6, r) \<in> set (rmatch (Lit (lit ''"'')) r3)\<close> by blast
  from in_Plus[OF a1] obtain ws where ws: "s = ws @ r1" "list_all isspace ws" by blast
  have r1: \<open>r1 = lit ''v="'' @ r2\<close> by (rule in_Lit[OF a2])
  from in_Plus[OF a3] obtain ds where ds: "r2 = ds @ r3" "list_all isdecimal ds" by blast
  have r3: \<open>r3 = lit ''"'' @ r\<close> by (rule in_Lit[OF b3])
  let ?a = \<open>ws @ lit ''v="'' @ ds @ lit ''"''\<close>
  have "s = ?a @ r" unfolding ws(1) r1 ds(1) r3 by simp
  moreover have "60 \<notin> set ?a"
    using space_not_lt[OF ws(2)] decimal_not_lt[OF ds(2)] by (simp add: lit_def)
  ultimately show ?thesis by blast
qed

lemma A_inv:
  assumes "re_match ANY_ENCRYPTED_TAG_PATTERN x \<noteq> None"
  shows \<open>\<exists>a rest. x = 60 # a @ lit ''</encrypted>'' @ rest \<and> 60 \<notin> set a\<close>
proof -
  from re_match_in[OF assms] obtain g r where m: "(g, r) \<in> set (rmatch ANY_ENCRYPTED_TAG_PATTERN x)"
    by blast
  note m = m[unfolded ANY_ENCRYPTED_TAG_PATTERN_def]
  from in_Seq[OF m] obtain g1 r1 g2 where
    a1: \<open>(g1, r1) \<in> set (rmatch (Lit (lit ''<encrypted'')) x)\<close> and
    b1: \<open>(g2, r) \<in> set (rmatch (Seq (Opt (Seq (Plus isspace) (Seq (Lit (lit ''v="''))
              (Seq (Plus isdecimal) (Lit (lit ''"''))))))
            (Seq (Lit (lit ''>'')) (Seq (Grp (Star not_lt)) (Lit (lit ''</encrypted>''))))) r1)\<close>
    by blast
  from in_Seq[OF b1] obtain g3 r2 g4 where
    a2: \<open>(g3, r2) \<in> set (rmatch (Opt (Seq (Plus isspace) (Seq (Lit (lit ''v="''))
              (Seq (Plus isdecimal) (Lit (lit ''"'')))))) r1)\<close> and
    b2: \<open>(g4, r) \<in> set (rmatch (Seq (Lit (lit ''>''))
            (Seq (Grp (Star not_lt)) (Lit (lit ''</encrypted>'')))) r2)\<close> by blast
  from in_Seq[OF b2] obtain g5 r3 g6 where
    a3: \<open>(g5, r3) \<in> set (rmatch (Lit (lit ''>'')) r2)\<close> and
    b3: \<open>(g6, r) \<in> set (rmatch (Seq (Grp (Star not_lt)) (Lit (lit ''</encrypted>''))) r3)\<close> by blast
  from in_Seq[OF b3] obtain g7 r4 g8 where
    a4: "(g7, r4) \<in> set (rmatch (Grp (Star not_lt)) r3)" and
    b4: \<open>(g8, r) \<in> set (rmatch (Lit (lit ''</encrypted>'')) r4)\<close> by blast
  have x: \<open>x = lit ''<encrypted'' @ r1\<close> by (rule in_Lit[OF a1])
  have "\<exists>a. r1 = a @ r2 \<and> 60 \<notin> set a"
    using in_Opt[OF a2]
  proof
    assume \<open>(g3, r2) \<in> set (rmatch (Seq (Plus isspace) (Seq (Lit (lit ''v="''))
              (Seq (Plus isdecimal) (Lit (lit ''"''))))) r1)\<close>
    then show ?thesis by (rule attr_inv)
  next
    assume "r2 = r1"
    then have "r1 = [] @ r2 \<and> 60 \<notin> set []" by simp
    then show ?thesis by blast
  qed
  then obtain at where at: "r1 = at @ r2" "60 \<notin> set at" by blast
  have r2: \<open>r2 = lit ''>'' @ r3\<close> by (rule in_Lit[OF a3])
  from in_Grp[OF a4] obtain g'' where "(g'', r4) \<in> set (rmatch (Star not_lt) r3)" by blast
  from in_Star[OF this] obtain p where p: "r3 = p @ r4" "list_all not_lt p" by blast
  have r4: \<open>r4 = lit ''</encrypted>'' @ r\<close> by (rule in_Lit[OF b4])
  let ?a = \<open>lit ''encrypted'' @ at @ lit ''>'' @ p\<close>
  have \<open>x = 60 # ?a @ lit ''</encrypted>'' @ r\<close>
    unfolding x at(1) r2 p(1) r4 by (simp add: lit_def)
  moreover have "60 \<notin> set ?a"
    using at(2) not_lt_set[OF p(2)] by (simp add: lit_def)
  ultimately show ?thesis by blast
qed

lemma clash_strip: "clash u l \<Longrightarrow> strip_prefix l (u @ s) = None"
  by (induction u l rule: clash.induct) auto

lemma bc_append:
  \<open>60 \<notin> set a \<Longrightarrow> begins_closer (a @ lit ''</encrypted>'' @ rest)\<close>
proof (induction a)
  case Nil
  have \<open>strip_prefix (lit ''</encrypted>'') (lit ''</encrypted>'' @ rest) = Some rest\<close>
    by (rule strip_prefix_append)
  moreover have \<open>\<exists>w. lit ''</encrypted>'' @ rest = 60 # w\<close> by (simp add: lit_def)
  ultimately show ?case by auto
next
  case (Cons c a)
  then show ?case by simp
qed

lemma text_ok_bc: "text_ok t \<Longrightarrow> \<not> begins_closer s \<Longrightarrow> \<not> begins_closer (t @ s)"
proof (induction t)
  case Nil
  then show ?case by simp
next
  case (Cons c t)
  show ?case
  proof (cases "c = 60")
    case True
    then have \<open>clash (c # t) (lit ''</encrypted>'')\<close> using Cons.prems(1) by simp
    then have \<open>strip_prefix (lit ''</encrypted>'') ((c # t) @ s) = None\<close> by (rule clash_strip)
    then show ?thesis using True by simp
  next
    case False
    then show ?thesis using Cons by simp
  qed
qed

lemma scan_text:
  assumes inv: \<open>\<And>x. re_match r x \<noteq> None \<Longrightarrow>
                 \<exists>a rest. x = 60 # a @ lit ''</encrypted>'' @ rest \<and> 60 \<notin> set a\<close>
    and "text_ok t" and "\<not> begins_closer s"
  shows "re_sub r f st (t @ s) = emit t (re_sub r f st s)"
  using assms(2)
proof (induction t)
  case Nil
  then show ?case by simp
next
  case (Cons c t)
  then have ok: "text_ok t" by simp
  have nb: "\<not> begins_closer (t @ s)" by (rule text_ok_bc[OF ok assms(3)])
  have "re_match r (c # t @ s) = None"
  proof (rule ccontr)
    assume "re_match r (c # t @ s) \<noteq> None"
    from inv[OF this] obtain a rest where
      \<open>c # t @ s = 60 # a @ lit ''</encrypted>'' @ rest\<close> and a: "60 \<notin> set a" by blast
    then have \<open>t @ s = a @ lit ''</encrypted>'' @ rest\<close> by simp
    then show False using bc_append[OF a, of rest] nb by simp
  qed
  then have "re_sub r f st (c # t @ s) = emit [c] (re_sub r f st (t @ s))" by (rule re_sub_skip)
  then show ?case using Cons.IH[OF ok] by (simp add: emit_emit)
qed

lemma no_closer_sub:
  assumes inv: \<open>\<And>x. re_match r x \<noteq> None \<Longrightarrow>
                 \<exists>a rest. x = 60 # a @ lit ''</encrypted>'' @ rest \<and> 60 \<notin> set a\<close>
    and \<open>\<not> str_in (lit ''</encrypted>'') s\<close>
  shows "re_sub r f st s = (s, st)"
  using assms(2)
proof (induction s)
  case Nil
  have "re_match r [] = None"
  proof (rule ccontr)
    assume "re_match r [] \<noteq> None"
    from inv[OF this] show False by simp
  qed
  then show ?case by (simp add: re_sub_Nil)
next
  case (Cons c s)
  have n: \<open>\<not> str_in (lit ''</encrypted>'') s\<close> using Cons.prems by simp
  have "re_match r (c # s) = None"
  proof (rule ccontr)
    assume "re_match r (c # s) \<noteq> None"
    from inv[OF this] obtain a rest where \<open>c # s = (60 # a) @ lit ''</encrypted>'' @ rest\<close> by auto
    then have \<open>str_in (lit ''</encrypted>'') (c # s)\<close> unfolding str_in_iff by blast
    then show False using Cons.prems by simp
  qed
  then show ?case using Cons.IH[OF n] by (simp add: re_sub_skip)
qed

lemma not_lt_text_ok: "list_all not_lt p \<Longrightarrow> text_ok p"
  by (induction p) (auto simp: not_lt_def)

lemma bc_versioned: "\<not> begins_closer (versioned_tag v p @ s)"
  by (simp add: versioned_tag_def lit_def)

lemma bc_legacy: "\<not> begins_closer (legacy_tag p @ s)"
  by (simp add: legacy_tag_def lit_def)

lemma render_Cons: "render (x # xs) = render_seg x @ render xs"
  by (simp add: render_def)

lemma bc_render: "list_all wf_seg segs \<Longrightarrow> \<not> begins_closer (render segs)"
proof (induction segs)
  case Nil
  then show ?case by (simp add: render_def)
next
  case (Cons seg segs)
  then have ih: "\<not> begins_closer (render segs)" by simp
  show ?case
  proof (cases seg)
    case (Text t)
    then show ?thesis using Cons.prems text_ok_bc[OF _ ih, of t] by (simp add: render_Cons)
  next
    case (Versioned v p)
    then show ?thesis by (simp add: render_Cons bc_versioned)
  next
    case (Legacy p)
    then show ?thesis by (simp add: render_Cons bc_legacy)
  qed
qed

lemma strip_text_ok:
  assumes "text_ok t" and "\<not> begins_closer s"
  shows "strip_encrypted_tags (t @ s) = t @ strip_encrypted_tags s"
  unfolding strip_encrypted_tags_def
  by (subst scan_text[OF A_inv assms]) simp_all

lemma decrypt_spans_text_ok:
  assumes "text_ok t" and "\<not> begins_closer s"
  shows "decrypt_spans L k (t @ s) = t @ decrypt_spans L k s"
  unfolding decrypt_spans_def
  by (subst scan_text[OF V_inv assms]) simp_all

lemma strip_render:
  "list_all wf_seg segs \<Longrightarrow> strip_encrypted_tags (render segs) = concat (map payload segs)"
proof (induction segs)
  case Nil
  then show ?case by (simp add: render_def strip_Nil)
next
  case (Cons seg segs)
  then have ih: "strip_encrypted_tags (render segs) = concat (map payload segs)"
    and wf: "list_all wf_seg segs" by simp_all
  show ?case
  proof (cases seg)
    case (Text t)
    then show ?thesis using Cons.prems ih
      by (simp add: render_Cons strip_text_ok[OF _ bc_render[OF wf]])
  next
    case (Versioned v p)
    then show ?thesis using Cons.prems ih by (simp add: render_Cons strip_versioned)
  next
    case (Legacy p)
    then show ?thesis using Cons.prems ih by (simp add: render_Cons strip_legacy)
  qed
qed

lemma decrypt_spans_render:
  "list_all wf_seg segs \<Longrightarrow> decrypt_spans L k (render segs) = render (map (resolve L k) segs)"
proof (induction segs)
  case Nil
  then show ?case by (simp add: render_def decrypt_spans_Nil)
next
  case (Cons seg segs)
  then have ih: "decrypt_spans L k (render segs) = render (map (resolve L k) segs)"
    and wf: "list_all wf_seg segs" by simp_all
  show ?case
  proof (cases seg)
    case (Text t)
    then show ?thesis using Cons.prems ih
      by (simp add: render_Cons decrypt_spans_text_ok[OF _ bc_render[OF wf]])
  next
    case (Versioned v p)
    then show ?thesis using Cons.prems ih
      by (simp add: render_Cons decrypt_spans_hit split: sum.splits)
  next
    case (Legacy p)
    then show ?thesis using Cons.prems ih by (simp add: render_Cons decrypt_spans_legacy)
  qed
qed

lemma payload_wf: "wf_seg seg \<Longrightarrow> wf_seg (Text (payload seg))"
  by (cases seg) (simp_all add: not_lt_text_ok)

lemma render_payload: "render (map (\<lambda>seg. Text (payload seg)) segs) = concat (map payload segs)"
  by (induction segs) (simp_all add: render_def)

lemma strip_fixpoint:
  assumes "list_all wf_seg segs"
  shows "strip_encrypted_tags (concat (map payload segs)) = concat (map payload segs)"
proof -
  let ?segs = "map (\<lambda>seg. Text (payload seg)) segs"
  have wf: "list_all wf_seg ?segs" using assms payload_wf by (auto simp: list_all_iff)
  have "strip_encrypted_tags (render ?segs) = concat (map payload ?segs)"
    by (rule strip_render[OF wf])
  moreover have "concat (map payload ?segs) = concat (map payload segs)"
    by (induction segs) simp_all
  ultimately show ?thesis by (simp add: render_payload)
qed

lemma resolve_wf:
  assumes "wf_seg seg"
    and "\<And>v p t. seg = Versioned v p \<Longrightarrow> decrypt_value L k (versioned_tag v p) = Inr t \<Longrightarrow> text_ok t"
  shows "wf_seg (resolve L k seg)"
  using assms by (cases seg) (auto split: sum.splits)

lemma resolve_idem: "resolve L k (resolve L k seg) = resolve L k seg"
  by (cases seg) (auto split: sum.splits)

lemma idempotent_segments:
  assumes wf: "list_all wf_seg segs"
    and pt: "\<And>k v p t. key = Some k \<Longrightarrow> Versioned v p \<in> set segs \<Longrightarrow>
               decrypt_value L k (versioned_tag v p) = Inr t \<Longrightarrow> text_ok t"
  shows "\<exists>d1 b1 b2. decrypt_or_strip_content L (render segs) key = Inr (d1, b1)
           \<and> decrypt_or_strip_content L d1 key = Inr (d1, b2)"
proof (cases "has_encrypted_tags (render segs)")
  case False
  then have "decrypt_or_strip_content L (render segs) key = Inr (render segs, False)"
    by (simp add: decrypt_or_strip_eq)
  then show ?thesis by blast
next
  case True
  show ?thesis
  proof (cases "\<exists>k. key = Some k \<and> CRYPTO_AVAILABLE L")
    case False
    let ?d1 = "concat (map payload segs)"
    have 1: "decrypt_or_strip_content L (render segs) key = Inr (?d1, False)"
      using True False by (auto simp: decrypt_or_strip_eq strip_render[OF wf] split: option.splits)
    have "decrypt_or_strip_content L ?d1 key = Inr (?d1, False)"
      using False by (auto simp: decrypt_or_strip_eq strip_fixpoint[OF wf] split: option.splits)
    then show ?thesis using 1 by blast
  next
    case k: True
    then obtain k where key: "key = Some k" and c: "CRYPTO_AVAILABLE L" by blast
    let ?segs' = "map (resolve L k) segs"
    have 1: "decrypt_or_strip_content L (render segs) key = Inr (render ?segs', True)"
      using True key c by (simp add: decrypt_or_strip_eq decrypt_spans_render[OF wf])
    have wf': "list_all wf_seg ?segs'"
      unfolding list_all_iff
    proof
      fix x assume "x \<in> set ?segs'"
      then obtain seg where seg: "seg \<in> set segs" and x: "x = resolve L k seg" by auto
      have "wf_seg seg" using wf seg by (simp add: list_all_iff)
      then show "wf_seg x" unfolding x
        by (rule resolve_wf) (use pt[OF key] seg in blast)
    qed
    have "decrypt_spans L k (render ?segs') = render (map (resolve L k) ?segs')"
      by (rule decrypt_spans_render[OF wf'])
    then have 2: "decrypt_spans L k (render ?segs') = render ?segs'"
      by (simp add: resolve_idem comp_def)
    have "\<exists>b2. decrypt_or_strip_content L (render ?segs') key = Inr (render ?segs', b2)"
    proof (cases "has_encrypted_tags (render ?segs')")
      case True
      then have "decrypt_or_strip_content L (render ?segs') key = Inr (render ?segs', True)"
        using key c 2 by (simp add: decrypt_or_strip_eq)
      then show ?thesis by blast
    next
      case False
      then have "decrypt_or_strip_content L (render ?segs') key = Inr (render ?segs', False)"
        by (simp add: decrypt_or_strip_eq)
      then show ?thesis by blast
    qed
    then show ?thesis using 1 by blast
  qed
qed

lemma no_closer_fixpoint:
  assumes \<open>\<not> str_in (lit ''</encrypted>'') d\<close>
  shows "\<exists>b. decrypt_or_strip_content L d key = Inr (d, b)"
proof -
  have s: "strip_encrypted_tags d = d"
    unfolding strip_encrypted_tags_def by (simp add: no_closer_sub[OF A_inv assms])
  have v: "\<And>k. decrypt_spans L k d = d"
    unfolding decrypt_spans_def by (simp add: no_closer_sub[OF V_inv assms])
  show ?thesis by (auto simp: decrypt_or_strip_eq s v split: option.splits)
qed

text \<open>
  C6 (amended). \<open>decrypt_or_strip_content\<close> is idempotent in the document, that is, applied
  under the same key to the document that its first application returned it returns that
  document unchanged,
  \<^item> on every document that is a sequence of spans (versioned or unversioned) and of text
    in which no \<open><\<close> begins a closing tag \<open></encrypted>\<close>, whole or cut off by the end of
    the text, provided that every plaintext decrypted with the key is such text too; a
    span that fails to decrypt stays as it is and fails again;
  \<^item> and for every document whatever, as soon as the first output contains no closing tag
    \<open></encrypted>\<close> or no versioned opening marker \<open><encrypted v="\<close>.
\<close>

theorem idempotent_on_segments:
  \<open>(list_all wf_seg segs
      \<and> (\<forall>k v p t. key = Some k \<longrightarrow> Versioned v p \<in> set segs \<longrightarrow>
             decrypt_value L k (versioned_tag v p) = Inr t \<longrightarrow> text_ok t)
      \<longrightarrow> (\<exists>d1 b1 b2. decrypt_or_strip_content L (render segs) key = Inr (d1, b1)
             \<and> decrypt_or_strip_content L d1 key = Inr (d1, b2)))
   \<and> (decrypt_or_strip_content L d key = Inr (d', b')
      \<and> (\<not> str_in (lit ''</encrypted>'') d' \<or> \<not> str_in (lit ''<encrypted v="'') d')
      \<longrightarrow> (\<exists>b2. decrypt_or_strip_content L d' key = Inr (d', b2)))\<close>
proof (intro conjI impI)
  assume a: "list_all wf_seg segs
      \<and> (\<forall>k v p t. key = Some k \<longrightarrow> Versioned v p \<in> set segs \<longrightarrow>
             decrypt_value L k (versioned_tag v p) = Inr t \<longrightarrow> text_ok t)"
  then have wf: "list_all wf_seg segs" by simp
  show "\<exists>d1 b1 b2. decrypt_or_strip_content L (render segs) key = Inr (d1, b1)
             \<and> decrypt_or_strip_content L d1 key = Inr (d1, b2)"
    by (rule idempotent_segments[OF wf]) (use a in blast)
next
  assume \<open>decrypt_or_strip_content L d key = Inr (d', b')
      \<and> (\<not> str_in (lit ''</encrypted>'') d' \<or> \<not> str_in (lit ''<encrypted v="'') d')\<close>
  then consider \<open>\<not> str_in (lit ''</encrypted>'') d'\<close> | \<open>\<not> str_in (lit ''<encrypted v="'') d'\<close>
    by blast
  then show "\<exists>b2. decrypt_or_strip_content L d' key = Inr (d', b2)"
  proof cases
    case 1
    then show ?thesis by (rule no_closer_fixpoint)
  next
    case 2
    then have "decrypt_or_strip_content L d' key = Inr (d', False)"
      by (simp add: decrypt_or_strip_eq has_encrypted_tags_def)
    then show ?thesis by blast
  qed
qed

lemma sample_encrypt:
  \<open>encrypt_value toy_lib sample_key sample_nonce (lit ''p<w'')
     = Inr (versioned_tag (lit ''1'') sample_payload)\<close>
proof -
  have u: \<open>utf8_encode (lit ''p<w'') = Inr (map of_nat (lit ''p<w''))\<close>
    by (rule utf8_encode_ascii) (simp add: lit_def)
  have t: \<open>\<And>x. lit ''<encrypted v="1">'' @ x @ lit ''</encrypted>'' = versioned_tag (lit ''1'') x\<close>
    by (simp add: versioned_tag_def lit_def)
  have c: "CRYPTO_AVAILABLE toy_lib" "AESGCM_new toy_lib sample_key"
    by (simp_all add: toy_lib_def sample_key_def)
  show ?thesis
    unfolding encrypt_value_def Let_def sample_payload_def
    by (simp only: c u t not_True_eq_False if_False sum.case)
qed

lemma sample_decrypt:
  \<open>decrypt_value toy_lib sample_key (versioned_tag (lit ''1'') sample_payload) = Inr (lit ''p<w'')\<close>
proof (rule round_trip[OF sample_encrypt])
  show "length sample_nonce = NONCE_LENGTH" by (simp add: sample_nonce_def NONCE_LENGTH_def)
  show "\<forall>data. AESGCM_decrypt toy_lib sample_key sample_nonce
           (AESGCM_encrypt toy_lib sample_key sample_nonce data) = Some data"
    by (rule toy_aead) (simp add: sample_key_def)
qed

lemma sample_payload_no_lt: "list_all not_lt sample_payload"
  unfolding sample_payload_def by (rule b64encode_no_lt)

lemma version2_fails:
  \<open>decrypt_value toy_lib k (versioned_tag (lit ''2'') (lit ''anything''))
     = Inl (UnsupportedVersion (lit ''2''))\<close>
proof -
  have w: \<open>lit ''2'' \<noteq> []\<close> \<open>list_all isdecimal (lit ''2'')\<close> \<open>list_all not_lt (lit ''anything'')\<close>
    by (simp_all add: lit_def not_lt_def)
  show ?thesis
    using decrypt_value_tag[OF w, of toy_lib k]
    by (simp add: ENCRYPTION_VERSION_def lit_def toy_lib_def)
qed

theorem idempotent_on_segments_witness:
  \<open>list_all wf_seg [Text (lit ''if a < b: ''), Versioned (lit ''1'') sample_payload,
                    Legacy (lit ''x''), Versioned (lit ''2'') (lit ''anything'')]
   \<and> decrypt_value toy_lib sample_key (versioned_tag (lit ''1'') sample_payload) = Inr (lit ''p<w'')
   \<and> text_ok (lit ''p<w'')
   \<and> decrypt_or_strip_content toy_lib
        (render [Text (lit ''if a < b: ''), Versioned (lit ''1'') sample_payload,
                 Legacy (lit ''x''), Versioned (lit ''2'') (lit ''anything'')])
        (Some sample_key)
       = Inr (lit ''if a < b: '' @ lit ''p<w'' @ legacy_tag (lit ''x'')
                @ versioned_tag (lit ''2'') (lit ''anything''), True)
   \<and> (\<exists>b2. decrypt_or_strip_content toy_lib
              (lit ''if a < b: '' @ lit ''p<w'' @ legacy_tag (lit ''x'')
                 @ versioned_tag (lit ''2'') (lit ''anything''))
              (Some sample_key)
            = Inr (lit ''if a < b: '' @ lit ''p<w'' @ legacy_tag (lit ''x'')
                     @ versioned_tag (lit ''2'') (lit ''anything''), b2))
   \<and> decrypt_or_strip_content toy_lib
        (render [Text (lit ''if a < b: ''), Versioned (lit ''1'') sample_payload,
                 Legacy (lit ''x''), Versioned (lit ''2'') (lit ''anything'')])
        None
       = Inr (lit ''if a < b: '' @ sample_payload @ lit ''x'' @ lit ''anything'', False)
   \<and> (\<exists>b2. decrypt_or_strip_content toy_lib
              (lit ''if a < b: '' @ sample_payload @ lit ''x'' @ lit ''anything'') None
            = Inr (lit ''if a < b: '' @ sample_payload @ lit ''x'' @ lit ''anything'', b2))
   \<and> decrypt_or_strip_content no_crypto (versioned_tag (lit ''1'') (lit ''X'')) None
       = Inr (lit ''X'', False)
   \<and> \<not> str_in (lit ''</encrypted>'') (lit ''X'')
   \<and> (\<exists>b2. decrypt_or_strip_content no_crypto (lit ''X'') None = Inr (lit ''X'', b2))\<close>
proof -
  let ?segs = \<open>[Text (lit ''if a < b: ''), Versioned (lit ''1'') sample_payload,
                Legacy (lit ''x''), Versioned (lit ''2'') (lit ''anything'')]\<close>
  let ?D1 = \<open>lit ''if a < b: '' @ lit ''p<w'' @ legacy_tag (lit ''x'')
               @ versioned_tag (lit ''2'') (lit ''anything'')\<close>
  let ?D0 = \<open>lit ''if a < b: '' @ sample_payload @ lit ''x'' @ lit ''anything''\<close>
  have t1: \<open>text_ok (lit ''if a < b: '')\<close> by (simp add: lit_def)
  have t2: \<open>text_ok (lit ''p<w'')\<close> by (simp add: lit_def)
  have w: \<open>lit ''1'' \<noteq> []\<close> \<open>list_all isdecimal (lit ''1'')\<close> \<open>lit ''2'' \<noteq> []\<close>
    \<open>list_all isdecimal (lit ''2'')\<close> \<open>list_all not_lt (lit ''anything'')\<close>
    \<open>list_all not_lt (lit ''x'')\<close>
    by (simp_all add: lit_def not_lt_def)
  have wf: "list_all wf_seg ?segs"
    using t1 w sample_payload_no_lt by simp
  have ne: \<open>versioned_tag (lit ''1'') sample_payload \<noteq> versioned_tag (lit ''2'') (lit ''anything'')\<close>
    by (simp add: versioned_tag_def lit_def)
  have pt1: "\<forall>k v p t. Some sample_key = Some k \<longrightarrow> Versioned v p \<in> set ?segs \<longrightarrow>
             decrypt_value toy_lib k (versioned_tag v p) = Inr t \<longrightarrow> text_ok t"
  proof (intro allI impI)
    fix k v p t
    assume "Some sample_key = Some k" and m: "Versioned v p \<in> set ?segs"
      and d: "decrypt_value toy_lib k (versioned_tag v p) = Inr t"
    then have k: "k = sample_key" by simp
    from m consider \<open>v = lit ''1''\<close> "p = sample_payload" | \<open>v = lit ''2''\<close> \<open>p = lit ''anything''\<close>
      by auto
    then show "text_ok t"
    proof cases
      case 1
      then have "t = lit ''p<w''" using d k sample_decrypt by simp
      then show ?thesis using t2 by simp
    next
      case 2
      then show ?thesis using d version2_fails[of k] by simp
    qed
  qed
  have pt0: "\<forall>k v p t. (None :: bytes option) = Some k \<longrightarrow> Versioned v p \<in> set ?segs \<longrightarrow>
             decrypt_value toy_lib k (versioned_tag v p) = Inr t \<longrightarrow> text_ok t"
    by simp
  have rs: \<open>resolve toy_lib sample_key (Versioned (lit ''1'') sample_payload) = Text (lit ''p<w'')\<close>
    \<open>resolve toy_lib sample_key (Versioned (lit ''2'') (lit ''anything''))
       = Versioned (lit ''2'') (lit ''anything'')\<close>
    by (simp_all add: sample_decrypt version2_fails)
  have r: \<open>render (map (resolve toy_lib sample_key) ?segs) = ?D1\<close>
    by (simp add: render_def rs del: resolve.simps(1))
  have ds: "decrypt_spans toy_lib sample_key (render ?segs) = ?D1"
    using decrypt_spans_render[OF wf, of toy_lib sample_key] r by (simp only:)
  have ss: "strip_encrypted_tags (render ?segs) = ?D0"
    using strip_render[OF wf] by simp
  have h: "has_encrypted_tags (render ?segs)"
    using has_tags_versioned[of \<open>lit ''if a < b: ''\<close> \<open>lit ''1''\<close> sample_payload
        \<open>legacy_tag (lit ''x'') @ versioned_tag (lit ''2'') (lit ''anything'')\<close>]
    by (simp add: render_def)
  have ca: "CRYPTO_AVAILABLE toy_lib" by (simp add: toy_lib_def)
  have f1: "decrypt_or_strip_content toy_lib (render ?segs) (Some sample_key) = Inr (?D1, True)"
    using h ca ds by (simp only: decrypt_or_strip_eq) simp
  have f0: "decrypt_or_strip_content toy_lib (render ?segs) None = Inr (?D0, False)"
    using h ss by (simp only: decrypt_or_strip_eq) simp
  note th = idempotent_on_segments[of ?segs _ toy_lib]
  from th[of "Some sample_key"] wf pt1
  obtain d1 b1 b2 where
    "decrypt_or_strip_content toy_lib (render ?segs) (Some sample_key) = Inr (d1, b1)"
    "decrypt_or_strip_content toy_lib d1 (Some sample_key) = Inr (d1, b2)" by blast
  then have s1: "\<exists>b2. decrypt_or_strip_content toy_lib ?D1 (Some sample_key) = Inr (?D1, b2)"
    using f1 by auto
  from th[of None] wf pt0
  obtain e1 c1 c2 where
    "decrypt_or_strip_content toy_lib (render ?segs) None = Inr (e1, c1)"
    "decrypt_or_strip_content toy_lib e1 None = Inr (e1, c2)" by blast
  then have s0: "\<exists>b2. decrypt_or_strip_content toy_lib ?D0 None = Inr (?D0, b2)"
    using f0 by auto
  have x: \<open>lit ''1'' \<noteq> []\<close> \<open>list_all isdecimal (lit ''1'')\<close> \<open>list_all not_lt (lit ''X'')\<close>
    by (simp_all add: lit_def not_lt_def)
  have "strip_encrypted_tags (versioned_tag (lit ''1'') (lit ''X'') @ []) = lit ''X'' @ strip_encrypted_tags []"
    by (rule strip_versioned[OF x])
  then have sx: "strip_encrypted_tags (versioned_tag (lit ''1'') (lit ''X'')) = lit ''X''"
    by (simp add: strip_Nil)
  have hx: "has_encrypted_tags (versioned_tag (lit ''1'') (lit ''X''))"
    using has_tags_versioned[of "[]" _ _ "[]"] by simp
  have fx: \<open>decrypt_or_strip_content no_crypto (versioned_tag (lit ''1'') (lit ''X'')) None
       = Inr (lit ''X'', False)\<close>
    using hx sx by (simp only: decrypt_or_strip_eq) simp
  have nx: \<open>\<not> str_in (lit ''</encrypted>'') (lit ''X'')\<close> by (simp add: lit_def)
  have s2: \<open>\<exists>b2. decrypt_or_strip_content no_crypto (lit ''X'') None = Inr (lit ''X'', b2)\<close>
    using idempotent_on_segments[of "[]" None no_crypto \<open>versioned_tag (lit ''1'') (lit ''X'')\<close>
        \<open>lit ''X''\<close> False] fx nx by blast
  show ?thesis using wf sample_decrypt t2 f1 s1 f0 s0 fx nx s2 by blast
qed

end
